theory Spec2Isabelle
  imports
    Main
    "HOL-Library.Char_ord"
    "HOL-Library.List_Lexorder"
    "HOL-Library.Sublist"
    "HOL-Library.Multiset"
    "HOL-Library.Log_Nat"
begin

section \<open>conan-check-updates: the command line module\<close>

text \<open>
  The development embeds \<^verbatim>\<open>src/conan_check_updates/__main__.py\<close>. A Python \<^verbatim>\<open>str\<close> is a
  \<^typ>\<open>string\<close>; one \<^typ>\<open>char\<close> stands for one code point (Conan package names and
  version strings are ASCII). Strings are ordered as Python orders them: lexicographically,
  characters by their code (\<^verbatim>\<open>Char_ord\<close>, \<^verbatim>\<open>List_Lexorder\<close>).
\<close>

subsection \<open>Data model of the imported modules\<close>

text \<open>
  Modelled from the spec: the module \<^verbatim>\<open>version\<close> (types \<^verbatim>\<open>Version\<close>, \<^verbatim>\<open>VersionLike\<close>,
  \<^verbatim>\<open>VersionRange\<close>, \<^verbatim>\<open>VersionLikeOrRange\<close>, \<^verbatim>\<open>VersionPart\<close>) is not part of the source
  at hand. A \<^verbatim>\<open>VersionLike\<close> is "either a concrete Version or an opaque non-semantic
  string"; the structured \<^verbatim>\<open>Version\<close> and the \<^verbatim>\<open>VersionRange\<close> stay abstract
  (type variables \<open>'v\<close> and \<open>'r\<close>).
\<close>

datatype 'v version_like = Ver 'v | Str string

datatype ('v, 'r) version_like_or_range = Like "'v version_like" | Range 'r

datatype version_part = MAJOR | MINOR | PATCH

text \<open>
  Modelled from the spec: the requirement reference and the search result of module
  \<^verbatim>\<open>conan\<close>, read by \<^verbatim>\<open>run\<close> through \<^verbatim>\<open>r.ref.package\<close>, \<^verbatim>\<open>r.ref.version\<close> and
  \<^verbatim>\<open>r.versions\<close>.
\<close>

record ('v, 'r) requirement_ref =
  package :: string
  version :: "('v, 'r) version_like_or_range"

record ('v, 'r) search_result =
  ref :: "('v, 'r) requirement_ref"
  versions :: "'v version_like list"

text \<open>The exceptions that occur in the module.\<close>

datatype error = AssertionError | ZeroDivisionError | OverflowError | KeyboardInterrupt

text \<open>
  An asynchronous iterator that ends: the items it produces, then either
  \<^verbatim>\<open>StopAsyncIteration\<close> (\<open>None\<close>) or an exception.
\<close>

datatype 'a aiter = AIter (items: "'a list") (failure: "error option")

text \<open>
  The functions imported from the modules \<^verbatim>\<open>conan\<close>, \<^verbatim>\<open>filter\<close> and \<^verbatim>\<open>version\<close>, and the
  string conversions of \<^verbatim>\<open>Version\<close> and \<^verbatim>\<open>VersionRange\<close>. Their code is not part of the
  source at hand, so every definition below takes them as the parameter \<open>C\<close>.
\<close>

record ('v, 'r) collaborators =
  str_version :: "'v \<Rightarrow> string"
  str_range :: "'r \<Rightarrow> string"
  max_satifies :: "'r \<Rightarrow> 'v version_like list \<Rightarrow> 'v version_like option"
  find_update :: "'v version_like \<Rightarrow> 'v version_like list \<Rightarrow> version_part \<Rightarrow> 'v option"
  find_conanfile :: "string \<Rightarrow> string"
  inspect_requires_conanfile :: "string \<Rightarrow> ('v, 'r) requirement_ref list"
  matches_any :: "string \<Rightarrow> string list \<Rightarrow> bool"
  search_versions_parallel ::
    "('v, 'r) requirement_ref list \<Rightarrow> int \<Rightarrow> ('v, 'r) search_result aiter"

text \<open>
  Modelled from the spec: \<^verbatim>\<open>is_semantic_version\<close> of module \<^verbatim>\<open>version\<close>, "true iff v
  parsed successfully as a Version (not an opaque string)". The module calls it on an
  optional value; \<^verbatim>\<open>None\<close> is not a Version.
\<close>

fun is_semantic_version :: "'v version_like option \<Rightarrow> bool" where
  "is_semantic_version (Some (Ver v)) = True"
| "is_semantic_version (Some (Str s)) = False"
| "is_semantic_version None = False"

text \<open>\<^verbatim>\<open>str(x)\<close> on the values the module prints.\<close>

fun str_like :: "('v, 'r) collaborators \<Rightarrow> 'v version_like \<Rightarrow> string" where
  "str_like C (Ver v) = str_version C v"
| "str_like C (Str s) = s"

fun str_like_or_range :: "('v, 'r) collaborators \<Rightarrow> ('v, 'r) version_like_or_range \<Rightarrow> string" where
  "str_like_or_range C (Like v) = str_like C v"
| "str_like_or_range C (Range r) = str_range C r"

fun str_optional :: "('v, 'r) collaborators \<Rightarrow> 'v version_like option \<Rightarrow> string" where
  "str_optional C None = ''None''"
| "str_optional C (Some v) = str_like C v"

text \<open>
  Truth value of an optional \<^verbatim>\<open>VersionLike\<close> in a condition: \<^verbatim>\<open>None\<close> and the empty string
  are false; a \<^verbatim>\<open>Version\<close> is an object without length or boolean conversion in the spec,
  hence true.
\<close>

fun truthy :: "'v version_like option \<Rightarrow> bool" where
  "truthy None = False"
| "truthy (Some (Str s)) = (s \<noteq> [])"
| "truthy (Some (Ver v)) = True"

subsection \<open>Colors\<close>

definition ESC :: char where
  "ESC = CHR 0x1B"

definition RESET :: string where
  "RESET = ESC # ''[0m''"

definition BOLD :: string where
  "BOLD = ESC # ''[1m''"

definition RED :: string where
  "RED = ESC # ''[31m''"

text \<open>\<^verbatim>\<open>colored(txt, *colors)\<close>: the colors, the text, the reset code.\<close>

definition colored :: "string \<Rightarrow> string list \<Rightarrow> string" where
  "colored txt colors = concat (colors @ [txt, RESET])"

subsection \<open>highlight_version_diff\<close>

text \<open>
  The index of the first position at which the two strings differ, over the positions both
  have (\<^verbatim>\<open>zip\<close> stops at the shorter one); \<open>None\<close> when there is none.
\<close>

definition i_first_diff :: "string \<Rightarrow> string \<Rightarrow> nat option" where
  "i_first_diff version' compare =
     (case filter (\<lambda>(i, (s1, s2)). s1 \<noteq> s2) (enumerate 0 (zip version' compare)) of
        [] \<Rightarrow> None
      | (i, _) # _ \<Rightarrow> Some i)"

definition highlight_version_diff_with :: "string \<Rightarrow> string \<Rightarrow> string \<Rightarrow> string" where
  "highlight_version_diff_with version' compare highlight =
     (case i_first_diff version' compare of
        None \<Rightarrow> version'
      | Some i \<Rightarrow> take i version' @ colored (drop i version') [highlight])"

text \<open>The call with the default \<^verbatim>\<open>highlight=Colors.RED\<close>.\<close>

definition highlight_version_diff :: "string \<Rightarrow> string \<Rightarrow> string" where
  "highlight_version_diff version' compare = highlight_version_diff_with version' compare RED"

subsection \<open>text_update_column and resolve_version\<close>

text \<open>\<^verbatim>\<open>sep.join(xs)\<close>.\<close>

fun join :: "string \<Rightarrow> string list \<Rightarrow> string" where
  "join sep [] = []"
| "join sep [x] = x"
| "join sep (x # y # ys) = x @ sep @ join sep (y # ys)"

definition text_update_column ::
  "('v, 'r) collaborators \<Rightarrow> 'v version_like option \<Rightarrow> 'v option \<Rightarrow> 'v version_like list \<Rightarrow> string"
where
  "text_update_column C current_version update_version vs =
     (if \<not> is_semantic_version current_version then join '', '' (map (str_like C) vs)
      else case update_version of
             Some u \<Rightarrow> highlight_version_diff (str_version C u) (str_optional C current_version)
           | None \<Rightarrow> str_optional C current_version)"

fun resolve_version ::
  "('v, 'r) collaborators \<Rightarrow> ('v, 'r) version_like_or_range \<Rightarrow> 'v version_like list
     \<Rightarrow> 'v version_like option"
where
  "resolve_version C (Range r) vs =
     (let versions_semantic = filter (\<lambda>v. is_semantic_version (Some v)) vs
      in max_satifies C r versions_semantic)"
| "resolve_version C (Like v) vs = Some v"

subsection \<open>async_progressbar\<close>

text \<open>\<^verbatim>\<open>str(n)\<close> of an integer: its decimal digits, with a sign when negative.\<close>

fun str_nat :: "nat \<Rightarrow> string" where
  "str_nat n =
     (if n < 10 then [char_of (48 + n)] else str_nat (n div 10) @ [char_of (48 + n mod 10)])"

declare str_nat.simps [simp del]

definition str_int :: "int \<Rightarrow> string" where
  "str_int k = (if k < 0 then CHR ''-'' # str_nat (nat (- k)) else str_nat (nat k))"

definition CR :: char where
  "CR = CHR 0x0D"

definition LF :: char where
  "LF = CHR 0x0A"

text \<open>
  \<^verbatim>\<open>a / b\<close> on integers gives the double nearest to the quotient (ties to the even
  mantissa), and \<^verbatim>\<open>int\<close> cuts it towards zero. \<open>shl x n\<close> is \<open>x\<close> times \<open>2 ^ n\<close> for
  \<open>n\<close> above zero and \<open>x\<close> otherwise; \<open>exponent2 p q\<close> is the exponent \<open>k\<close> of the
  quotient of two positive integers, \<open>2 ^ k \<le> p / q < 2 ^ (k + 1)\<close>; \<open>rne_div n d\<close> is
  \<open>n / d\<close> rounded to the nearest integer, ties to even.
\<close>

definition shl :: "int \<Rightarrow> int \<Rightarrow> int" where
  "shl x n = x * 2 ^ nat n"

definition exponent2 :: "int \<Rightarrow> int \<Rightarrow> int" where
  "exponent2 p q =
     (let d = bitlen p - bitlen q in if shl q d \<le> shl p (- d) then d else d - 1)"

definition rne_div :: "int \<Rightarrow> int \<Rightarrow> int" where
  "rne_div n d =
     (let f = n div d; r = n mod d
      in if 2 * r < d \<or> (2 * r = d \<and> even f) then f else f + 1)"

text \<open>
  \<^verbatim>\<open>int(a / b)\<close>: division by zero raises \<^verbatim>\<open>ZeroDivisionError\<close>. Otherwise the quotient
  of the magnitudes is scaled by \<open>2 ^ - e\<close> into the range of a 53-bit mantissa \<open>m\<close> and
  rounded there; the double is \<open>m * 2 ^ e\<close>, with the sign of the quotient. A double of
  \<open>2 ^ 1024\<close> or more does not exist: \<^verbatim>\<open>OverflowError\<close>. (Below \<open>2 ^ - 1022\<close> a double
  has fewer mantissa bits; the integer part is 0 either way.)
\<close>

definition int_quotient :: "int \<Rightarrow> int \<Rightarrow> error + int" where
  "int_quotient a b =
     (if b = 0 then Inl ZeroDivisionError
      else if a = 0 then Inr 0
      else
        let p = \<bar>a\<bar>; q = \<bar>b\<bar>;
            e = exponent2 p q - 52;
            m = rne_div (shl p (- e)) (shl q e)
        in if 2 ^ 1024 \<le> shl m e then Inl OverflowError
           else Inr (sgn a * sgn b * (shl m e div 2 ^ nat (- e))))"

text \<open>
  \<^verbatim>\<open>c * n\<close> for a one-character string: a count that does not fit a signed 64-bit index
  raises \<^verbatim>\<open>OverflowError\<close>; a count of zero or less gives the empty string. Storage is not
  bounded in the model (no \<^verbatim>\<open>MemoryError\<close>).
\<close>

definition repeat_str :: "char \<Rightarrow> int \<Rightarrow> error + string" where
  "repeat_str c n =
     (if n < - (2 ^ 63) \<or> 2 ^ 63 - 1 < n then Inl OverflowError
      else Inr (replicate (nat n) c))"

text \<open>
  The local function \<^verbatim>\<open>show(j)\<close> of \<^verbatim>\<open>async_progressbar\<close>: the assertion, the two guarded
  divisions, the two parts of the bar, and the text it writes to \<^verbatim>\<open>file\<close>. An exception
  of a division or of a repetition leaves \<^verbatim>\<open>show\<close> before anything is written.
\<close>

definition show_bar :: "int \<Rightarrow> string \<Rightarrow> int \<Rightarrow> int \<Rightarrow> error + string" where
  "show_bar total' desc size' j =
     (if \<not> (0 \<le> j \<and> j \<le> total') then Inl AssertionError
      else case (if total' > 0 then int_quotient (size' * j) total' else Inr size') of
        Inl e \<Rightarrow> Inl e
      | Inr nbar \<Rightarrow>
          (case (if total' > 0 then int_quotient (100 * j) total' else Inr 100) of
             Inl e \<Rightarrow> Inl e
           | Inr perc \<Rightarrow>
               (case repeat_str CHR ''='' nbar of
                  Inl e \<Rightarrow> Inl e
                | Inr bar \<Rightarrow>
                    (case repeat_str CHR ''-'' (size' - nbar) of
                       Inl e \<Rightarrow> Inl e
                     | Inr rest \<Rightarrow>
                         Inr (desc @ ''['' @ bar @ rest @ ''] ''
                                @ str_int j @ ''/'' @ str_int total' @ '' '' @ str_int perc
                                @ ''%'' @ [CR])))))"

text \<open>
  What the generator does, in order: \<open>Show j txt\<close> is a call \<^verbatim>\<open>show(j)\<close> that passed its
  assertion and wrote \<open>txt\<close>; \<open>Yield x\<close> hands an item to the consumer; \<open>Write s\<close> is the
  closing write; \<open>Raise e\<close> ends the generator with an exception.
\<close>

datatype 'a event = Show int string | Yield 'a | Write string | Raise error

text \<open>
  The \<^verbatim>\<open>async for\<close> loop of the generator with the counter \<open>i\<close>: yield the item, add one,
  show. When the wrapped iterator is exhausted the closing write follows; when it raises,
  the exception passes through.
\<close>

fun progress_loop ::
  "int \<Rightarrow> string \<Rightarrow> int \<Rightarrow> bool \<Rightarrow> error option \<Rightarrow> 'a list \<Rightarrow> int \<Rightarrow> 'a event list"
where
  "progress_loop total' desc size' keep fail [] i =
     (case fail of
        Some e \<Rightarrow> [Raise e]
      | None \<Rightarrow> [Write (if keep then [LF] else [CR])])"
| "progress_loop total' desc size' keep fail (item # it) i =
     Yield item #
       (case show_bar total' desc size' (i + 1) of
          Inl e \<Rightarrow> [Raise e]
        | Inr txt \<Rightarrow> Show (i + 1) txt # progress_loop total' desc size' keep fail it (i + 1))"

text \<open>Readings of a trace: the items yielded, the counts shown, the text written, the exception.\<close>

fun yielded :: "'a event list \<Rightarrow> 'a list" where
  "yielded [] = []"
| "yielded (Yield x # tr) = x # yielded tr"
| "yielded (_ # tr) = yielded tr"

fun shown :: "'a event list \<Rightarrow> int list" where
  "shown [] = []"
| "shown (Show j txt # tr) = j # shown tr"
| "shown (_ # tr) = shown tr"

fun written :: "'a event list \<Rightarrow> string list" where
  "written [] = []"
| "written (Show j txt # tr) = txt # written tr"
| "written (Write s # tr) = s # written tr"
| "written (_ # tr) = written tr"

fun raised_in :: "'a event list \<Rightarrow> error option" where
  "raised_in [] = None"
| "raised_in (Raise e # tr) = Some e"
| "raised_in (_ # tr) = raised_in tr"

text \<open>
  The generator: the first \<^verbatim>\<open>show(0)\<close>, then the loop. \<^verbatim>\<open>file\<close> is an open text stream,
  given by the chunks written to it so far; every write of the generator adds one chunk.
  The result is the trace and the stream afterwards.
\<close>

record 'a progress =
  trace :: "'a event list"
  stream :: "string list"

definition async_progressbar ::
  "'a aiter \<Rightarrow> int \<Rightarrow> string \<Rightarrow> int \<Rightarrow> bool \<Rightarrow> string list \<Rightarrow> 'a progress"
where
  "async_progressbar it total' desc size' keep file =
     (let tr = (case show_bar total' desc size' 0 of
                  Inl e \<Rightarrow> [Raise e]
                | Inr txt \<Rightarrow>
                    Show 0 txt # progress_loop total' desc size' keep (failure it) (items it) 0)
      in \<lparr>trace = tr, stream = file @ written tr\<rparr>)"

subsection \<open>run\<close>

definition ljust :: "nat \<Rightarrow> string \<Rightarrow> string" where
  "ljust w s = s @ replicate (w - length s) CHR '' ''"

definition rjust :: "nat \<Rightarrow> string \<Rightarrow> string" where
  "rjust w s = replicate (w - length s) CHR '' '' @ s"

text \<open>The arrow U+2192 of the format string, as its three UTF-8 bytes.\<close>

definition ARROW :: string where
  "ARROW = [CHR 0xE2, CHR 0x86, CHR 0x92]"

text \<open>\<^verbatim>\<open>format_str.format(package, version, column, **cols)\<close>.\<close>

definition format_row :: "nat \<Rightarrow> nat \<Rightarrow> string \<times> string \<times> string \<Rightarrow> string" where
  "format_row cols_package cols_version row =
     (case row of (pkg, ver, col) \<Rightarrow>
        ljust cols_package pkg @ '' '' @ rjust cols_version ver @ ''  '' @ ARROW @ ''  '' @ col)"

definition cols_package :: "('v, 'r) search_result list \<Rightarrow> nat" where
  "cols_package results =
     fold max (map (\<lambda>r. length (package (ref r))) results) (max 0 10) + 1"

definition cols_version :: "('v, 'r) collaborators \<Rightarrow> ('v, 'r) search_result list \<Rightarrow> nat" where
  "cols_version C results =
     fold max (map (\<lambda>r. length (str_like_or_range C (version (ref r)))) results) (max 0 10)"

text \<open>
  The update of one result: \<^verbatim>\<open>find_update\<close> is called only when the resolved current
  version is true in a condition.
\<close>

definition update_version_of ::
  "('v, 'r) collaborators \<Rightarrow> version_part \<Rightarrow> 'v version_like option \<Rightarrow> 'v version_like list
     \<Rightarrow> 'v option"
where
  "update_version_of C target current_version_resolved vs =
     (case current_version_resolved of
        None \<Rightarrow> None
      | Some v \<Rightarrow> if truthy (Some v) then find_update C v vs target else None)"

text \<open>
  The body of the \<^verbatim>\<open>for\<close> loop over the sorted results; a row is the triple of values handed
  to the format string.
\<close>

fun report_rows ::
  "('v, 'r) collaborators \<Rightarrow> version_part \<Rightarrow> ('v, 'r) search_result list
     \<Rightarrow> (string \<times> string \<times> string) list"
where
  "report_rows C target [] = []"
| "report_rows C target (result # rest) =
     (let current_version_or_range = version (ref result);
          current_version_resolved = resolve_version C current_version_or_range (versions result);
          update_version = update_version_of C target current_version_resolved (versions result);
          skip = (is_semantic_version current_version_resolved \<and> update_version = None)
      in if skip then report_rows C target rest
         else (package (ref result),
               str_like_or_range C current_version_or_range,
               text_update_column C current_version_resolved update_version (versions result))
              # report_rows C target rest)"

text \<open>The rows in the order of \<^verbatim>\<open>sorted(results, key=lambda r: r.ref.package)\<close>.\<close>

definition sorted_rows ::
  "('v, 'r) collaborators \<Rightarrow> version_part \<Rightarrow> ('v, 'r) search_result list
     \<Rightarrow> (string \<times> string \<times> string) list"
where
  "sorted_rows C target results =
     report_rows C target (sort_key (\<lambda>r. package (ref r)) results)"

text \<open>The lines printed by the loop.\<close>

definition report ::
  "('v, 'r) collaborators \<Rightarrow> version_part \<Rightarrow> ('v, 'r) search_result list \<Rightarrow> string list"
where
  "report C target results =
     map (format_row (cols_package results) (cols_version C results))
       (sorted_rows C target results)"

record run_result =
  stdout :: "string list"
  stderr :: "string list"
  raised :: "error option"

text \<open>The pieces of \<^verbatim>\<open>run\<close>: the header line, the filtered references, the fetch.\<close>

definition header :: "('v, 'r) collaborators \<Rightarrow> string \<Rightarrow> string" where
  "header C path = ''Checking '' @ colored (find_conanfile C path) [BOLD]"

definition refs_filtered ::
  "('v, 'r) collaborators \<Rightarrow> string \<Rightarrow> string list \<Rightarrow> ('v, 'r) requirement_ref list"
where
  "refs_filtered C path package_filter =
     filter (\<lambda>r. matches_any C (package r) package_filter)
       (inspect_requires_conanfile C (find_conanfile C path))"

text \<open>
  The generator as \<^verbatim>\<open>run\<close> calls it: around \<^verbatim>\<open>search_versions_parallel\<close>, with
  \<^verbatim>\<open>total=len(refs_filtered)\<close> and the default display parameters; the stream is
  \<^verbatim>\<open>sys.stderr\<close>, taken from the start of the run.
\<close>

definition fetch ::
  "('v, 'r) collaborators \<Rightarrow> string \<Rightarrow> string list \<Rightarrow> int \<Rightarrow> ('v, 'r) search_result progress"
where
  "fetch C path package_filter timeout =
     (let rs = refs_filtered C path package_filter
      in async_progressbar (search_versions_parallel C rs timeout) (int (length rs))
           [] 20 False [])"

text \<open>
  A \<^verbatim>\<open>KeyboardInterrupt\<close> can arrive at any moment of \<^verbatim>\<open>run\<close>. While \<^verbatim>\<open>run\<close> waits for
  the results it is the failure of the fetch sequence. At the other moments it is given
  by a value of this type: before anything is printed (while the conanfile is looked for
  and read), or in the report loop after \<open>k\<close> lines of the report were printed (with
  fewer than \<open>k + 1\<close> lines the loop is over before it).
\<close>

datatype sigint = NoInterrupt | BeforeHeader | InReport nat

text \<open>
  \<^verbatim>\<open>run\<close>: the header line, the results collected through the progress bar, the report.
  An exception from the generator leaves the list comprehension and \<^verbatim>\<open>run\<close>, so nothing
  more is printed. An interrupt ends \<^verbatim>\<open>run\<close> where it arrives; the lines printed before
  it stay printed.
\<close>

definition run ::
  "('v, 'r) collaborators \<Rightarrow> string \<Rightarrow> string list \<Rightarrow> version_part \<Rightarrow> int \<Rightarrow> sigint
     \<Rightarrow> run_result"
where
  "run C path package_filter target timeout interrupt =
     (if interrupt = BeforeHeader
      then \<lparr>stdout = [], stderr = [], raised = Some KeyboardInterrupt\<rparr>
      else
        let p = fetch C path package_filter timeout
        in case raised_in (trace p) of
             Some e \<Rightarrow> \<lparr>stdout = [header C path], stderr = stream p, raised = Some e\<rparr>
           | None \<Rightarrow>
               (let rows = report C target (yielded (trace p))
                in case interrupt of
                     InReport k \<Rightarrow>
                       if k < length rows
                       then \<lparr>stdout = header C path # take k rows, stderr = stream p,
                             raised = Some KeyboardInterrupt\<rparr>
                       else \<lparr>stdout = header C path # rows, stderr = stream p,
                             raised = None\<rparr>
                   | _ \<Rightarrow> \<lparr>stdout = header C path # rows, stderr = stream p,
                           raised = None\<rparr>))"

subsection \<open>main\<close>

record args =
  args_cwd :: string
  args_filter :: "string list"
  args_target :: string
  args_timeout :: int

definition target_choices :: "string \<Rightarrow> version_part option" where
  "target_choices s =
     (if s = ''major'' then Some MAJOR
      else if s = ''minor'' then Some MINOR
      else if s = ''patch'' then Some PATCH
      else None)"

text \<open>
  \<^verbatim>\<open>main\<close> after \<^verbatim>\<open>parse_args\<close>: run, and swallow a \<^verbatim>\<open>KeyboardInterrupt\<close>; any other
  exception leaves \<^verbatim>\<open>main\<close>. What was printed before the interrupt stays printed.
\<close>

definition main :: "('v, 'r) collaborators \<Rightarrow> args \<Rightarrow> sigint \<Rightarrow> run_result" where
  "main C a interrupt =
     (let r = run C (args_cwd a) (args_filter a)
                (case target_choices (args_target a) of Some t \<Rightarrow> t | None \<Rightarrow> MAJOR)
                (args_timeout a) interrupt
      in case raised r of
           Some KeyboardInterrupt \<Rightarrow> r\<lparr>raised := None\<rparr>
         | _ \<Rightarrow> r)"

subsection \<open>Readings used in the statements\<close>

text \<open>
  The resolved current version and the update of one result, as the loop of \<^verbatim>\<open>run\<close>
  computes them, and the row it prints for a result it does not skip.
\<close>

definition resolved ::
  "('v, 'r) collaborators \<Rightarrow> ('v, 'r) search_result \<Rightarrow> 'v version_like option"
where
  "resolved C r = resolve_version C (version (ref r)) (versions r)"

definition update ::
  "('v, 'r) collaborators \<Rightarrow> version_part \<Rightarrow> ('v, 'r) search_result \<Rightarrow> 'v option"
where
  "update C target r = update_version_of C target (resolved C r) (versions r)"

definition row_of ::
  "('v, 'r) collaborators \<Rightarrow> version_part \<Rightarrow> ('v, 'r) search_result
     \<Rightarrow> string \<times> string \<times> string"
where
  "row_of C target r =
     (package (ref r), str_like_or_range C (version (ref r)),
      text_update_column C (resolved C r) (update C target r) (versions r))"

text \<open>
  Stripping the color codes from a text: every sequence \<open>ESC [ p m\<close>, with \<open>p\<close> made of
  digits and semicolons, is removed. \<open>sgr_params\<close> gives the length of \<open>p m\<close> at the head
  of a string.
\<close>

fun sgr_params :: "string \<Rightarrow> nat option" where
  "sgr_params [] = None"
| "sgr_params (c # cs) =
     (if c = CHR ''m'' then Some 1
      else if c \<in> set ''0123456789;'' then map_option Suc (sgr_params cs)
      else None)"

fun strip_ansi :: "string \<Rightarrow> string" where
  "strip_ansi [] = []"
| "strip_ansi (c # cs) =
     (case (if c = ESC \<and> take 1 cs = ''['' then sgr_params (drop 1 cs) else None) of
        Some n \<Rightarrow> strip_ansi (drop (Suc n) cs)
      | None \<Rightarrow> c # strip_ansi cs)"

subsection \<open>A concrete instance\<close>

text \<open>
  Versions as lists of numbers, ranges as half-open intervals, an update search that keeps
  the components above the target ceiling, and a registry of four packages whose lookups
  complete in reverse order.
\<close>

fun ceiling_index :: "version_part \<Rightarrow> nat" where
  "ceiling_index MAJOR = 0"
| "ceiling_index MINOR = 1"
| "ceiling_index PATCH = 2"

definition example_collab :: "(nat list, nat list \<times> nat list) collaborators" where
  "example_collab =
     \<lparr>str_version = (\<lambda>v. join ''.'' (map str_nat v)),
      str_range = (\<lambda>(lo, hi). ''[>='' @ join ''.'' (map str_nat lo) @ '' <''
                     @ join ''.'' (map str_nat hi) @ '']''),
      max_satifies = (\<lambda>(lo, hi) vs.
         case concat (map (\<lambda>v. case v of
                   Ver x \<Rightarrow> if lo \<le> x \<and> x < hi then [x] else []
                 | Str s \<Rightarrow> []) vs) of
           [] \<Rightarrow> None
         | x # xs \<Rightarrow> Some (Ver (fold max xs x))),
      find_update = (\<lambda>c vs target.
         case c of
           Str s \<Rightarrow> None
         | Ver x \<Rightarrow>
             (case concat (map (\<lambda>v. case v of
                       Ver y \<Rightarrow>
                         if x < y \<and> take (ceiling_index target) y = take (ceiling_index target) x
                         then [y] else []
                     | Str s \<Rightarrow> []) vs) of
                [] \<Rightarrow> None
              | y # ys \<Rightarrow> Some (fold max ys y))),
      find_conanfile = (\<lambda>path. path @ ''/conanfile.txt''),
      inspect_requires_conanfile = (\<lambda>conanfile.
         [\<lparr>package = ''zlib'', version = Like (Ver [1, 2, 11])\<rparr>,
          \<lparr>package = ''Boost'', version = Like (Str ''main'')\<rparr>,
          \<lparr>package = ''fmt'', version = Like (Ver [9, 0, 0])\<rparr>,
          \<lparr>package = ''asio'', version = Range ([2, 0, 0], [3, 0, 0])\<rparr>]),
      matches_any = (\<lambda>name patterns. patterns = [] \<or> name \<in> set patterns),
      search_versions_parallel = (\<lambda>refs timeout.
         AIter (map (\<lambda>r. \<lparr>ref = r, versions =
                   (if package r = ''zlib'' then [Ver [1, 2, 11], Ver [1, 2, 13], Ver [1, 3, 0]]
                    else if package r = ''Boost'' then [Ver [1, 80, 0], Str ''latest'']
                    else if package r = ''fmt'' then [Ver [9, 0, 0]]
                    else [Ver [1, 28, 0], Str ''cci''])\<rparr>) (rev refs)) None)\<rparr>"

definition example_results :: "(nat list, nat list \<times> nat list) search_result list" where
  "example_results =
     items (search_versions_parallel example_collab
              (inspect_requires_conanfile example_collab []) 30)"

definition example_args :: args where
  "example_args =
     \<lparr>args_cwd = ''.'', args_filter = [], args_target = ''minor'', args_timeout = 30\<rparr>"

text \<open>The same instance with a fetch that is interrupted after two results.\<close>

definition interrupted_collab :: "(nat list, nat list \<times> nat list) collaborators" where
  "interrupted_collab =
     example_collab\<lparr>search_versions_parallel := (\<lambda>refs timeout.
        AIter (take 2 (items (search_versions_parallel example_collab refs timeout)))
          (Some KeyboardInterrupt))\<rparr>"

section \<open>Properties\<close>

subsection \<open>The report loop\<close>

lemma report_rows_filter:
  "report_rows C target rs =
     map (row_of C target)
       (filter (\<lambda>r. \<not> (is_semantic_version (resolved C r) \<and> update C target r = None)) rs)"
  by (induction rs) (simp_all add: Let_def row_of_def resolved_def update_def)

lemma fst_row_of: "fst (row_of C target r) = package (ref r)"
  by (simp add: row_of_def)

lemma sorted_names_report_rows:
  "sorted (map (\<lambda>r. package (ref r)) rs) \<Longrightarrow> sorted (map fst (report_rows C target rs))"
  by (simp add: report_rows_filter comp_def fst_row_of sorted_filter)

lemma is_semantic_version_iff: "is_semantic_version cur \<longleftrightarrow> (\<exists>c. cur = Some (Ver c))"
  by (cases cur rule: is_semantic_version.cases) simp_all

text \<open>
  C1. The rows of the report are, in sorted order, the rows of exactly those results that
  are not skipped, and a result is skipped exactly when its resolved current version is a
  semantic version and its update is none. So the printed lines are the formatted rows of
  the kept results, there are as many lines as kept results, and a single result gives no
  row exactly in the skipped case.
\<close>

theorem report_drops_exactly_up_to_date:
  "sorted_rows C target results =
     map (row_of C target)
       (filter (\<lambda>r. \<not> (is_semantic_version (resolved C r) \<and> update C target r = None))
          (sort_key (\<lambda>r. package (ref r)) results))
   \<and> report C target results =
       map (\<lambda>r. format_row (cols_package results) (cols_version C results) (row_of C target r))
        (filter (\<lambda>r. \<not> (is_semantic_version (resolved C r) \<and> update C target r = None))
          (sort_key (\<lambda>r. package (ref r)) results))
   \<and> length (report C target results) =
       length (filter (\<lambda>r. \<not> (is_semantic_version (resolved C r) \<and> update C target r = None))
                 results)
   \<and> (report_rows C target [r] = []
        \<longleftrightarrow> is_semantic_version (resolved C r) \<and> update C target r = None)
   \<and> (\<not> (is_semantic_version (resolved C r) \<and> update C target r = None)
        \<longrightarrow> report_rows C target [r] = [row_of C target r])"
proof -
  let ?keep = "\<lambda>r. \<not> (is_semantic_version (resolved C r) \<and> update C target r = None)"
  let ?f = "\<lambda>r::('a, 'b) search_result. package (ref r)"
  have "mset (filter ?keep (sort_key ?f results)) = mset (filter ?keep results)"
    by simp
  then have "length (filter ?keep (sort_key ?f results)) = length (filter ?keep results)"
    by (rule mset_eq_length)
  then show ?thesis
    by (simp add: sorted_rows_def report_def report_rows_filter)
qed

theorem report_drops_exactly_up_to_date_witness:
  "sorted_rows example_collab MAJOR example_results =
     [(''Boost'', ''main'', ''1.80.0, latest''),
      (''asio'', ''[>=2.0.0 <3.0.0]'', ''1.28.0, cci''),
      (''zlib'', ''1.2.11'', ''1.'' @ RED @ ''3.0'' @ RESET)]
   \<and> length (report example_collab MAJOR example_results) = 3
   \<and> length example_results = 4"
proof -
  note t = report_drops_exactly_up_to_date [of example_collab MAJOR example_results]
  have "sorted_rows example_collab MAJOR example_results =
     map (row_of example_collab MAJOR)
       (filter (\<lambda>r. \<not> (is_semantic_version (resolved example_collab r)
                        \<and> update example_collab MAJOR r = None))
          (sort_key (\<lambda>r. package (ref r)) example_results))"
    using t by (rule conjunct1)
  also have "\<dots> = [(''Boost'', ''main'', ''1.80.0, latest''),
      (''asio'', ''[>=2.0.0 <3.0.0]'', ''1.28.0, cci''),
      (''zlib'', ''1.2.11'', ''1.'' @ RED @ ''3.0'' @ RESET)]"
    by code_simp
  finally have a: "sorted_rows example_collab MAJOR example_results =
     [(''Boost'', ''main'', ''1.80.0, latest''),
      (''asio'', ''[>=2.0.0 <3.0.0]'', ''1.28.0, cci''),
      (''zlib'', ''1.2.11'', ''1.'' @ RED @ ''3.0'' @ RESET)]" .
  have "length (report example_collab MAJOR example_results) =
       length (filter (\<lambda>r. \<not> (is_semantic_version (resolved example_collab r)
                        \<and> update example_collab MAJOR r = None)) example_results)"
    using t by blast
  also have "\<dots> = 3"
    by code_simp
  finally have b: "length (report example_collab MAJOR example_results) = 3" .
  have c: "length example_results = 4"
    by code_simp
  from a b c show ?thesis by blast
qed

subsection \<open>Resolving a range\<close>

lemma str_like_find_update [simp]: "str_like (C\<lparr>find_update := f\<rparr>) = str_like C"
proof
  fix v show "str_like (C\<lparr>find_update := f\<rparr>) v = str_like C v"
    by (cases v) simp_all
qed

lemma str_like_or_range_find_update [simp]:
  "str_like_or_range (C\<lparr>find_update := f\<rparr>) v = str_like_or_range C v"
  by (cases v) simp_all

lemma resolve_version_find_update [simp]:
  "resolve_version (C\<lparr>find_update := f\<rparr>) v vs = resolve_version C v vs"
  by (cases v) simp_all

lemma resolved_find_update [simp]: "resolved (C\<lparr>find_update := f\<rparr>) r = resolved C r"
  by (simp add: resolved_def)

text \<open>
  C2. For a declared range, \<^verbatim>\<open>resolve_version\<close> is \<^verbatim>\<open>max_satifies\<close> of the range on the
  available versions that are semantic, and on nothing else. When that gives none, the
  update of the result is none whatever \<^verbatim>\<open>find_update\<close> is: the row of the result is the
  same for every function put in its place, so the function is not called.
\<close>

theorem resolve_range_max_satisfying:
  "resolve_version C (Range r) vs =
     max_satifies C r (filter (\<lambda>v. is_semantic_version (Some v)) vs)
   \<and> set (filter (\<lambda>v. is_semantic_version (Some v)) vs) = {v \<in> set vs. \<exists>x. v = Ver x}
   \<and> (version (ref res) = Range r \<and> resolved C res = None \<longrightarrow>
        update C target res = None
        \<and> (\<forall>f. update (C\<lparr>find_update := f\<rparr>) target res = None)
        \<and> (\<forall>f. report_rows (C\<lparr>find_update := f\<rparr>) target [res] = report_rows C target [res]))"
proof (intro conjI impI allI)
  show "resolve_version C (Range r) vs =
     max_satifies C r (filter (\<lambda>v. is_semantic_version (Some v)) vs)"
    by simp
  show "set (filter (\<lambda>v. is_semantic_version (Some v)) vs) = {v \<in> set vs. \<exists>x. v = Ver x}"
    by (auto simp: is_semantic_version_iff)
next
  assume a: "version (ref res) = Range r \<and> resolved C res = None"
  then show "update C target res = None"
    by (simp add: update_def update_version_of_def)
  fix f
  from a show "update (C\<lparr>find_update := f\<rparr>) target res = None"
    by (simp add: update_def update_version_of_def)
  from a show "report_rows (C\<lparr>find_update := f\<rparr>) target [res] = report_rows C target [res]"
    by (simp add: report_rows_filter row_of_def update_def update_version_of_def
        text_update_column_def)
qed

theorem resolve_range_max_satisfying_witness:
  "resolve_version example_collab (Range ([1, 0, 0], [2, 0, 0]))
      [Ver [1, 28, 0], Str ''cci'', Ver [1, 30, 2], Ver [2, 1, 0]] = Some (Ver [1, 30, 2])
   \<and> version (ref (example_results ! 0)) = Range ([2, 0, 0], [3, 0, 0])
   \<and> resolved example_collab (example_results ! 0) = None
   \<and> update (example_collab\<lparr>find_update := \<lambda>c vs t. Some [9, 9, 9]\<rparr>) MAJOR
        (example_results ! 0) = None
   \<and> report_rows (example_collab\<lparr>find_update := \<lambda>c vs t. Some [9, 9, 9]\<rparr>) MAJOR
        [example_results ! 0] = [(''asio'', ''[>=2.0.0 <3.0.0]'', ''1.28.0, cci'')]"
proof -
  have "resolve_version example_collab (Range ([1, 0, 0], [2, 0, 0]))
      [Ver [1, 28, 0], Str ''cci'', Ver [1, 30, 2], Ver [2, 1, 0]] =
    max_satifies example_collab ([1, 0, 0], [2, 0, 0])
      (filter (\<lambda>v. is_semantic_version (Some v))
         [Ver [1, 28, 0], Str ''cci'', Ver [1, 30, 2], Ver [2, 1, 0]])"
    using resolve_range_max_satisfying
      [of example_collab "([1, 0, 0], [2, 0, 0])"
          "[Ver [1, 28, 0], Str ''cci'', Ver [1, 30, 2], Ver [2, 1, 0]]"]
    by (rule conjunct1)
  also have "\<dots> = Some (Ver [1, 30, 2])"
    by code_simp
  finally have a: "resolve_version example_collab (Range ([1, 0, 0], [2, 0, 0]))
      [Ver [1, 28, 0], Str ''cci'', Ver [1, 30, 2], Ver [2, 1, 0]] = Some (Ver [1, 30, 2])" .
  have h1: "version (ref (example_results ! 0)) = Range ([2, 0, 0], [3, 0, 0])"
    by code_simp
  have h2: "resolved example_collab (example_results ! 0) = None"
    by code_simp
  note t = resolve_range_max_satisfying
    [where C = example_collab and res = "example_results ! 0"
       and r = "([2, 0, 0], [3, 0, 0])" and target = MAJOR]
  from t h1 h2
  have b: "update (example_collab\<lparr>find_update := \<lambda>c vs t. Some [9, 9, 9]\<rparr>) MAJOR
        (example_results ! 0) = None"
    by blast
  from t h1 h2
  have "report_rows (example_collab\<lparr>find_update := \<lambda>c vs t. Some [9, 9, 9]\<rparr>) MAJOR
        [example_results ! 0] = report_rows example_collab MAJOR [example_results ! 0]"
    by blast
  also have "\<dots> = [(''asio'', ''[>=2.0.0 <3.0.0]'', ''1.28.0, cci'')]"
    by code_simp
  finally have c: "report_rows (example_collab\<lparr>find_update := \<lambda>c vs t. Some [9, 9, 9]\<rparr>) MAJOR
        [example_results ! 0] = [(''asio'', ''[>=2.0.0 <3.0.0]'', ''1.28.0, cci'')]" .
  from a h1 h2 b c show ?thesis by blast
qed

subsection \<open>The order of the rows\<close>

lemma le_string_iff:
  "(a::string) \<le> b \<longleftrightarrow> a = b \<or> (a, b) \<in> lexord {(c, d). (of_char c :: nat) < of_char d}"
  by (auto simp: list_le_def list_less_def less_char_def)

lemma sorted_strings_lexord:
  "sorted (xs::string list) \<Longrightarrow>
   sorted_wrt (\<lambda>a b. a = b \<or> (a, b) \<in> lexord {(c, d). (of_char c :: nat) < of_char d}) xs"
  by (induction xs) (auto simp: le_string_iff)

text \<open>
  C4. The package names of the report rows are in ascending order, for every list of
  collected results; the order is the lexicographic one on the character codes, so it
  distinguishes upper and lower case. The printed lines are the formatted rows in that
  order.
\<close>

theorem report_rows_sorted_by_package:
  "sorted (map fst (sorted_rows C target results))
   \<and> sorted_wrt (\<lambda>a b. a = b \<or> (a, b) \<in> lexord {(c, d). (of_char c :: nat) < of_char d})
        (map fst (sorted_rows C target results))
   \<and> report C target results =
       map (format_row (cols_package results) (cols_version C results))
         (sorted_rows C target results)"
proof -
  have s: "sorted (map fst (sorted_rows C target results))"
    unfolding sorted_rows_def by (rule sorted_names_report_rows) simp
  from sorted_strings_lexord [OF s] s show ?thesis
    by (simp add: report_def)
qed

theorem report_rows_sorted_by_package_witness:
  "sorted (map fst (sorted_rows example_collab MAJOR example_results))
   \<and> map fst (sorted_rows example_collab MAJOR example_results) = [''Boost'', ''asio'', ''zlib'']
   \<and> map (\<lambda>r. package (ref r)) example_results = [''asio'', ''fmt'', ''Boost'', ''zlib'']"
proof -
  have a: "sorted (map fst (sorted_rows example_collab MAJOR example_results))"
    using report_rows_sorted_by_package [of example_collab MAJOR example_results]
    by (rule conjunct1)
  have b: "map fst (sorted_rows example_collab MAJOR example_results)
      = [''Boost'', ''asio'', ''zlib'']"
    by code_simp
  have c: "map (\<lambda>r. package (ref r)) example_results = [''asio'', ''fmt'', ''Boost'', ''zlib'']"
    by code_simp
  from a b c show ?thesis by blast
qed

subsection \<open>Highlighting and the update column\<close>

lemma highlight_version_diff_decomp:
  "\<exists>pre suf. v = pre @ suf \<and>
     (highlight_version_diff v c = v \<or> highlight_version_diff v c = pre @ RED @ suf @ RESET)"
proof (cases "i_first_diff v c")
  case None
  then have "highlight_version_diff v c = v"
    by (simp add: highlight_version_diff_def highlight_version_diff_with_def)
  then show ?thesis by (intro exI [of _ v] exI [of _ "[]"]) simp
next
  case (Some i)
  then have "highlight_version_diff v c = take i v @ RED @ drop i v @ RESET"
    by (simp add: highlight_version_diff_def highlight_version_diff_with_def colored_def)
  then show ?thesis
    by (intro exI [of _ "take i v"] exI [of _ "drop i v"]) simp
qed

text \<open>
  C6. When the resolved current version is not a semantic version (none included), the
  update column is the list of all available versions joined by a comma and a space,
  whatever the update is. When it is a semantic version and there is an update, the column
  is the update version highlighted against the current one: the text of the update
  version, with at most the color code and the reset code put in. The column of a report
  row is this text for the resolved version and the update of its result.
\<close>

theorem update_column_list_or_update:
  "(\<not> is_semantic_version cur \<longrightarrow>
      text_update_column C cur upd vs = join '', '' (map (str_like C) vs))
   \<and> (\<forall>c u. cur = Some (Ver c) \<and> upd = Some u \<longrightarrow>
         text_update_column C cur upd vs
           = highlight_version_diff (str_version C u) (str_version C c)
         \<and> (\<exists>pre suf. str_version C u = pre @ suf \<and>
               (text_update_column C cur upd vs = pre @ suf
                \<or> text_update_column C cur upd vs = pre @ RED @ suf @ RESET)))
   \<and> snd (snd (row_of C target r)) =
        text_update_column C (resolved C r) (update C target r) (versions r)"
proof (intro conjI allI impI)
  show "text_update_column C cur upd vs = join '', '' (map (str_like C) vs)"
    if "\<not> is_semantic_version cur"
    using that by (simp add: text_update_column_def)
next
  fix c u
  assume a: "cur = Some (Ver c) \<and> upd = Some u"
  then show eq: "text_update_column C cur upd vs =
      highlight_version_diff (str_version C u) (str_version C c)"
    by (simp add: text_update_column_def)
  from highlight_version_diff_decomp [of "str_version C u" "str_version C c"]
  show "\<exists>pre suf. str_version C u = pre @ suf \<and>
               (text_update_column C cur upd vs = pre @ suf
                \<or> text_update_column C cur upd vs = pre @ RED @ suf @ RESET)"
    unfolding eq by metis
next
  show "snd (snd (row_of C target r)) =
        text_update_column C (resolved C r) (update C target r) (versions r)"
    by (simp add: row_of_def)
qed

theorem update_column_list_or_update_witness:
  "\<not> is_semantic_version (Some (Str ''main'') :: nat list version_like option)
   \<and> text_update_column example_collab (Some (Str ''main'')) (Some [7, 0, 0])
        [Ver [1, 80, 0], Str ''latest''] = ''1.80.0, latest''
   \<and> text_update_column example_collab None None
        [Ver [1, 28, 0], Str ''cci''] = ''1.28.0, cci''
   \<and> text_update_column example_collab (Some (Ver [1, 2, 11])) (Some [1, 3, 0])
        [Ver [1, 2, 11], Ver [1, 3, 0]] = ''1.'' @ RED @ ''3.0'' @ RESET"
proof -
  have h: "\<not> is_semantic_version (Some (Str ''main'') :: nat list version_like option)"
    by simp
  have h': "\<not> is_semantic_version (None :: nat list version_like option)"
    by simp
  have "text_update_column example_collab (Some (Str ''main'')) (Some [7, 0, 0])
        [Ver [1, 80, 0], Str ''latest'']
      = join '', '' (map (str_like example_collab) [Ver [1, 80, 0], Str ''latest''])"
    using update_column_list_or_update
      [where cur = "Some (Str ''main'')" and C = example_collab] h
    by blast
  also have "\<dots> = ''1.80.0, latest''"
    by code_simp
  finally have a: "text_update_column example_collab (Some (Str ''main'')) (Some [7, 0, 0])
        [Ver [1, 80, 0], Str ''latest''] = ''1.80.0, latest''" .
  have "text_update_column example_collab None None [Ver [1, 28, 0], Str ''cci'']
      = join '', '' (map (str_like example_collab) [Ver [1, 28, 0], Str ''cci''])"
    using update_column_list_or_update [where cur = None and C = example_collab] h'
    by blast
  also have "\<dots> = ''1.28.0, cci''"
    by code_simp
  finally have b: "text_update_column example_collab None None
        [Ver [1, 28, 0], Str ''cci''] = ''1.28.0, cci''" .
  have "text_update_column example_collab (Some (Ver [1, 2, 11])) (Some [1, 3, 0])
        [Ver [1, 2, 11], Ver [1, 3, 0]]
      = highlight_version_diff (str_version example_collab [1, 3, 0])
          (str_version example_collab [1, 2, 11])"
    using update_column_list_or_update
      [where cur = "Some (Ver [1, 2, 11])" and upd = "Some [1, 3, 0]" and C = example_collab]
    by blast
  also have "\<dots> = ''1.'' @ RED @ ''3.0'' @ RESET"
    by code_simp
  finally have c: "text_update_column example_collab (Some (Ver [1, 2, 11])) (Some [1, 3, 0])
        [Ver [1, 2, 11], Ver [1, 3, 0]] = ''1.'' @ RED @ ''3.0'' @ RESET" .
  from h a b c show ?thesis by blast
qed

subsection \<open>highlight_version_diff and the color codes\<close>

lemma first_diff_filter_Nil:
  "filter (\<lambda>(i, (s1, s2)). s1 \<noteq> s2) (enumerate n (zip xs ys)) = []
   \<longleftrightarrow> (\<forall>i < min (length xs) (length ys). xs ! i = ys ! i)"
proof (induction xs arbitrary: ys n)
  case Nil
  then show ?case by simp
next
  case (Cons x xs)
  show ?case
  proof (cases ys)
    case Nil
    then show ?thesis by simp
  next
    case (Cons y ys')
    have "(\<forall>i < Suc (min (length xs) (length ys')). (x # xs) ! i = (y # ys') ! i)
        \<longleftrightarrow> x = y \<and> (\<forall>i < min (length xs) (length ys'). xs ! i = ys' ! i)"
      by (auto simp: nth_Cons split: nat.splits)
    with Cons.IH [of "Suc n" ys'] Cons show ?thesis
      by simp
  qed
qed

lemma i_first_diff_None_iff:
  "i_first_diff v c = None \<longleftrightarrow> (\<forall>i < min (length v) (length c). v ! i = c ! i)"
proof -
  have "i_first_diff v c = None
      \<longleftrightarrow> filter (\<lambda>(i, (s1, s2)). s1 \<noteq> s2) (enumerate 0 (zip v c)) = []"
    by (auto simp: i_first_diff_def split: list.splits)
  then show ?thesis
    by (simp only: first_diff_filter_Nil)
qed

lemma highlight_version_diff_None:
  "i_first_diff v c = None \<Longrightarrow> highlight_version_diff v c = v"
  by (simp add: highlight_version_diff_def highlight_version_diff_with_def)

lemma highlight_version_diff_Some:
  "i_first_diff v c = Some i \<Longrightarrow>
   highlight_version_diff v c = take i v @ RED @ drop i v @ RESET"
  by (simp add: highlight_version_diff_def highlight_version_diff_with_def colored_def)

lemma strip_ansi_RED: "strip_ansi (RED @ w) = strip_ansi w"
  by (simp add: RED_def)

lemma strip_ansi_RESET: "strip_ansi RESET = []"
  by (simp add: RESET_def)

lemma sgr_params_append: "sgr_params s = Some n \<Longrightarrow> sgr_params (s @ t) = Some n"
  by (induction s arbitrary: n) (auto split: if_splits)

lemma sgr_params_before_ESC: "sgr_params (s @ ESC # t) = Some n \<Longrightarrow> sgr_params s = Some n"
  by (induction s arbitrary: n) (auto simp: ESC_def split: if_splits)

lemma length_strip_ansi: "length (strip_ansi s) \<le> length s"
proof (induction "length s" arbitrary: s rule: less_induct)
  case less
  show ?case
  proof (cases s)
    case Nil
    then show ?thesis by simp
  next
    case (Cons c cs)
    show ?thesis
    proof (cases "if c = ESC \<and> take 1 cs = ''['' then sgr_params (drop 1 cs) else None")
      case None
      from less [of cs] Cons have "length (strip_ansi cs) \<le> length cs"
        by simp
      with None Cons show ?thesis by simp
    next
      case (Some n)
      from less [of "drop (Suc n) cs"] Cons
      have "length (strip_ansi (drop (Suc n) cs)) \<le> length (drop (Suc n) cs)"
        by simp
      with Some Cons show ?thesis by simp
    qed
  qed
qed

lemma strip_ansi_fixed_Cons:
  assumes "strip_ansi (c # cs) = c # cs"
  shows "(if c = ESC \<and> take 1 cs = ''['' then sgr_params (drop 1 cs) else None) = None
    \<and> strip_ansi cs = cs"
proof (cases "if c = ESC \<and> take 1 cs = ''['' then sgr_params (drop 1 cs) else None")
  case None
  with assms show ?thesis by simp
next
  case (Some n)
  with assms have "strip_ansi (drop (Suc n) cs) = c # cs"
    by simp
  moreover have "length (strip_ansi (drop (Suc n) cs)) \<le> length (drop (Suc n) cs)"
    by (rule length_strip_ansi)
  ultimately have "length (c # cs) \<le> length (drop (Suc n) cs)"
    by simp
  then show ?thesis by simp
qed

lemma strip_ansi_fixed_before_ESC:
  "strip_ansi a = a \<Longrightarrow> strip_ansi (a @ ESC # t) = a @ strip_ansi (ESC # t)"
proof (induction a)
  case Nil
  then show ?case by simp
next
  case (Cons c a)
  from strip_ansi_fixed_Cons [OF Cons.prems]
  have n: "(if c = ESC \<and> take 1 a = ''['' then sgr_params (drop 1 a) else None) = None"
    and f: "strip_ansi a = a"
    by simp_all
  have "(if c = ESC \<and> take 1 (a @ ESC # t) = ''['' then sgr_params (drop 1 (a @ ESC # t))
         else None) = None"
  proof (cases "c = ESC \<and> take 1 (a @ ESC # t) = ''[''")
    case False
    then show ?thesis by auto
  next
    case True
    then obtain a' where a: "a = CHR ''['' # a'"
      by (cases a) (auto simp: ESC_def)
    with n True have "sgr_params a' = None"
      by simp
    then have "sgr_params (a' @ ESC # t) = None"
      using sgr_params_before_ESC [of a' t] by (cases "sgr_params (a' @ ESC # t)") auto
    with a show ?thesis by simp
  qed
  with Cons.IH [OF f] show ?case
    by simp
qed

lemma strip_ansi_fixed_appendD:
  "strip_ansi (x @ y) = x @ y \<Longrightarrow> strip_ansi x = x \<and> strip_ansi y = y"
proof (induction x)
  case Nil
  then show ?case by simp
next
  case (Cons c x)
  from Cons.prems have "strip_ansi (c # (x @ y)) = c # (x @ y)"
    by simp
  from strip_ansi_fixed_Cons [OF this]
  have n: "(if c = ESC \<and> take 1 (x @ y) = ''['' then sgr_params (drop 1 (x @ y)) else None)
      = None"
    and f: "strip_ansi (x @ y) = x @ y"
    by simp_all
  from Cons.IH [OF f] have x: "strip_ansi x = x" and y: "strip_ansi y = y"
    by simp_all
  have "(if c = ESC \<and> take 1 x = ''['' then sgr_params (drop 1 x) else None) = None"
  proof (cases "c = ESC \<and> take 1 x = ''[''")
    case False
    then show ?thesis by auto
  next
    case True
    then obtain x' where x': "x = CHR ''['' # x'"
      by (cases x) auto
    with n True have "sgr_params (x' @ y) = None"
      by simp
    then have "sgr_params x' = None"
      using sgr_params_append [of x' _ y] by (cases "sgr_params x'") auto
    with x' show ?thesis by simp
  qed
  with x y show ?case
    by simp
qed

lemma strip_ansi_highlighted:
  assumes "strip_ansi v = v"
  shows "strip_ansi (highlight_version_diff v c) = v"
proof (cases "i_first_diff v c")
  case None
  with assms show ?thesis
    by (simp add: highlight_version_diff_None)
next
  case (Some i)
  from assms have "strip_ansi (take i v @ drop i v) = take i v @ drop i v"
    by simp
  from strip_ansi_fixed_appendD [OF this]
  have p: "strip_ansi (take i v) = take i v" and s: "strip_ansi (drop i v) = drop i v"
    by simp_all
  have "strip_ansi (highlight_version_diff v c)
      = strip_ansi (take i v @ RED @ drop i v @ RESET)"
    by (simp add: highlight_version_diff_Some [OF Some])
  also have "\<dots> = take i v @ strip_ansi (RED @ drop i v @ RESET)"
    using strip_ansi_fixed_before_ESC [OF p, of "''[31m'' @ drop i v @ RESET"]
    by (simp add: RED_def)
  also have "\<dots> = take i v @ strip_ansi (drop i v @ RESET)"
    by (simp only: strip_ansi_RED)
  also have "\<dots> = take i v @ drop i v @ strip_ansi RESET"
    using strip_ansi_fixed_before_ESC [OF s, of "''[0m''"]
    by (simp add: RESET_def)
  finally show ?thesis
    by (simp add: strip_ansi_RESET)
qed

text \<open>
  C8. For every pair of texts the result is the version text with nothing but color codes
  put in: either the version text itself, or the version text with the code \<open>RED\<close> at one
  place and the code \<open>RESET\<close> at the end, two escape sequences that stripping removes;
  taking them out again gives the version text. Stripping all color codes from the result
  gives exactly the version text whenever the version text holds no color code of its own
  (as the text of a version does). The result is the version text unchanged exactly when
  no position within the shorter length differs; so it is for equal texts and for a text
  that extends the other.
\<close>

theorem highlight_version_diff_inserts_codes:
  "(\<exists>pre suf. v = pre @ suf \<and>
        (highlight_version_diff v c = v
         \<or> highlight_version_diff v c = pre @ RED @ suf @ RESET))
   \<and> strip_ansi RED = [] \<and> strip_ansi RESET = []
   \<and> (strip_ansi v = v \<longrightarrow> strip_ansi (highlight_version_diff v c) = v)
   \<and> (highlight_version_diff v c = v
        \<longleftrightarrow> (\<forall>i < min (length v) (length c). v ! i = c ! i))
   \<and> highlight_version_diff v v = v
   \<and> highlight_version_diff (c @ ext) c = c @ ext"
proof (intro conjI impI)
  show "\<exists>pre suf. v = pre @ suf \<and>
        (highlight_version_diff v c = v
         \<or> highlight_version_diff v c = pre @ RED @ suf @ RESET)"
    by (rule highlight_version_diff_decomp)
  show "strip_ansi RED = []"
    using strip_ansi_RED [of "[]"] by simp
  show "strip_ansi RESET = []"
    by (rule strip_ansi_RESET)
  show "strip_ansi (highlight_version_diff v c) = v" if "strip_ansi v = v"
    using that by (rule strip_ansi_highlighted)
  show "highlight_version_diff v c = v
        \<longleftrightarrow> (\<forall>i < min (length v) (length c). v ! i = c ! i)"
  proof (cases "i_first_diff v c")
    case None
    then show ?thesis
      using i_first_diff_None_iff [of v c] by (simp add: highlight_version_diff_None)
  next
    case (Some i)
    then have "length (highlight_version_diff v c) \<noteq> length v"
      by (simp add: highlight_version_diff_Some RED_def)
    then have "highlight_version_diff v c \<noteq> v"
      by auto
    with Some show ?thesis
      using i_first_diff_None_iff [of v c] by simp
  qed
  have "i_first_diff v v = None"
    by (simp add: i_first_diff_None_iff)
  then show "highlight_version_diff v v = v"
    by (rule highlight_version_diff_None)
  have "i_first_diff (c @ ext) c = None"
    by (simp add: i_first_diff_None_iff nth_append)
  then show "highlight_version_diff (c @ ext) c = c @ ext"
    by (rule highlight_version_diff_None)
qed

theorem highlight_version_diff_inserts_codes_witness:
  "strip_ansi ''1.3.0'' = ''1.3.0''
   \<and> highlight_version_diff ''1.3.0'' ''1.2.11'' = ''1.'' @ RED @ ''3.0'' @ RESET
   \<and> strip_ansi (''1.'' @ RED @ ''3.0'' @ RESET) = ''1.3.0''
   \<and> highlight_version_diff ''1.3.0'' ''1.3.0'' = ''1.3.0''
   \<and> highlight_version_diff ''1.3.0.1'' ''1.3.0'' = ''1.3.0.1''
   \<and> highlight_version_diff (RED @ ''1.0'') (RED @ ''1.0'') = RED @ ''1.0''"
proof -
  have h: "strip_ansi ''1.3.0'' = ''1.3.0''"
    by code_simp
  have a: "highlight_version_diff ''1.3.0'' ''1.2.11'' = ''1.'' @ RED @ ''3.0'' @ RESET"
    by code_simp
  from h highlight_version_diff_inserts_codes [of "''1.3.0''" "''1.2.11''"]
  have "strip_ansi (highlight_version_diff ''1.3.0'' ''1.2.11'') = ''1.3.0''"
    by blast
  then have b: "strip_ansi (''1.'' @ RED @ ''3.0'' @ RESET) = ''1.3.0''"
    by (simp only: a)
  have c: "highlight_version_diff ''1.3.0'' ''1.3.0'' = ''1.3.0''"
    using highlight_version_diff_inserts_codes [of "''1.3.0''" "''1.3.0''"] by blast
  have d: "highlight_version_diff (''1.3.0'' @ ''.1'') ''1.3.0'' = ''1.3.0'' @ ''.1''"
    using highlight_version_diff_inserts_codes [of _ "''1.3.0''" "''.1''"] by blast
  have e: "highlight_version_diff (RED @ ''1.0'') (RED @ ''1.0'') = RED @ ''1.0''"
    using highlight_version_diff_inserts_codes [of "RED @ ''1.0''"] by blast
  from h a b c d e show ?thesis by simp
qed

subsection \<open>The quotient through a double\<close>

lemma shl_nonpos: "n \<le> 0 \<Longrightarrow> shl x n = x"
  by (simp add: shl_def)

lemma exponent2_lower:
  assumes "0 < p" "0 < q"
  shows "shl q (exponent2 p q) \<le> shl p (- exponent2 p q)"
proof -
  let ?d = "bitlen p - bitlen q"
  show ?thesis
  proof (cases "shl q ?d \<le> shl p (- ?d)")
    case True
    then show ?thesis by (simp add: exponent2_def)
  next
    case False
    then have k: "exponent2 p q = ?d - 1"
      by (simp add: exponent2_def)
    from assms have bp: "2 ^ nat (bitlen p - 1) \<le> p" and bq: "q < 2 ^ nat (bitlen q)"
      using bitlen_bounds [of p] bitlen_bounds [of q] by simp_all
    from assms have p1: "1 \<le> bitlen p" and q1: "1 \<le> bitlen q"
      using bitlen_eq_zero_iff [of p] bitlen_eq_zero_iff [of q] bitlen_nonneg [of p]
        bitlen_nonneg [of q] by linarith+
    show ?thesis
    proof (cases "1 \<le> ?d")
      case True
      have "q * 2 ^ nat (?d - 1) < 2 ^ nat (bitlen q) * 2 ^ nat (?d - 1)"
        using bq by simp
      also have "\<dots> = 2 ^ (nat (bitlen q) + nat (?d - 1))"
        by (simp add: power_add)
      also from True q1 have "nat (bitlen q) + nat (?d - 1) = nat (bitlen p - 1)"
        by linarith
      finally have "q * 2 ^ nat (?d - 1) \<le> p"
        using bp by linarith
      with True show ?thesis
        unfolding k by (simp add: shl_def)
    next
      case False
      have "q < 2 ^ nat (bitlen q)"
        by (rule bq)
      also from False p1 have "nat (bitlen q) = nat (bitlen p - 1) + nat (1 - ?d)"
        by linarith
      also have "(2::int) ^ (nat (bitlen p - 1) + nat (1 - ?d))
          = 2 ^ nat (bitlen p - 1) * 2 ^ nat (1 - ?d)"
        by (simp add: power_add)
      also have "\<dots> \<le> p * 2 ^ nat (1 - ?d)"
        using bp by simp
      finally have "q \<le> p * 2 ^ nat (1 - ?d)"
        by simp
      with False show ?thesis
        unfolding k by (simp add: shl_def)
    qed
  qed
qed

lemma exponent2_upper:
  assumes "0 < p" "0 < q"
  shows "shl p (- (exponent2 p q + 1)) < shl q (exponent2 p q + 1)"
proof -
  let ?d = "bitlen p - bitlen q"
  show ?thesis
  proof (cases "shl q ?d \<le> shl p (- ?d)")
    case False
    then show ?thesis by (simp add: exponent2_def)
  next
    case True
    then have k: "exponent2 p q = ?d"
      by (simp add: exponent2_def)
    from assms have bp: "p < 2 ^ nat (bitlen p)" and bq: "2 ^ nat (bitlen q - 1) \<le> q"
      using bitlen_bounds [of p] bitlen_bounds [of q] by simp_all
    from assms have p1: "1 \<le> bitlen p" and q1: "1 \<le> bitlen q"
      using bitlen_eq_zero_iff [of p] bitlen_eq_zero_iff [of q] bitlen_nonneg [of p]
        bitlen_nonneg [of q] by linarith+
    show ?thesis
    proof (cases "0 \<le> ?d + 1")
      case True
      have "p < 2 ^ nat (bitlen p)"
        by (rule bp)
      also from True q1 have "nat (bitlen p) = nat (bitlen q - 1) + nat (?d + 1)"
        by linarith
      also have "(2::int) ^ (nat (bitlen q - 1) + nat (?d + 1))
          = 2 ^ nat (bitlen q - 1) * 2 ^ nat (?d + 1)"
        by (simp add: power_add)
      also have "\<dots> \<le> q * 2 ^ nat (?d + 1)"
        using bq by simp
      finally have "p < q * 2 ^ nat (?d + 1)" .
      with True show ?thesis
        unfolding k by (simp add: shl_def)
    next
      case False
      have "p * 2 ^ nat (- (?d + 1)) < 2 ^ nat (bitlen p) * 2 ^ nat (- (?d + 1))"
        using bp by simp
      also have "\<dots> = 2 ^ (nat (bitlen p) + nat (- (?d + 1)))"
        by (simp add: power_add)
      also from False p1 have "nat (bitlen p) + nat (- (?d + 1)) = nat (bitlen q - 1)"
        by linarith
      finally have "p * 2 ^ nat (- (?d + 1)) < q"
        using bq by linarith
      with False show ?thesis
        unfolding k by (simp add: shl_def)
    qed
  qed
qed

lemma rne_div_le:
  assumes "0 \<le> n" "0 < d" "n \<le> c * d"
  shows "rne_div n d \<le> c"
proof -
  from assms have "n div d \<le> (c * d) div d"
    by (intro zdiv_mono1) simp_all
  with assms have f: "n div d \<le> c"
    by simp
  show ?thesis
  proof (cases "n div d = c")
    case True
    have "n = d * (n div d) + n mod d"
      by simp
    with True assms have "n mod d \<le> 0"
      by (simp add: mult.commute)
    moreover from assms have "0 \<le> n mod d"
      by simp
    ultimately have "n mod d = 0"
      by simp
    with assms True show ?thesis
      by (simp add: rne_div_def Let_def)
  next
    case False
    with f have "n div d + 1 \<le> c"
      by simp
    with f show ?thesis
      by (simp add: rne_div_def Let_def)
  qed
qed

lemma rne_div_nonneg: "0 \<le> n \<Longrightarrow> 0 < d \<Longrightarrow> 0 \<le> rne_div n d"
  by (simp add: rne_div_def Let_def pos_imp_zdiv_nonneg_iff)

lemma int_quotient_bounded:
  assumes b: "b \<noteq> 0" and le: "\<bar>a\<bar> \<le> c * \<bar>b\<bar>" and c: "c \<le> 2 ^ 52"
  shows "\<exists>r. int_quotient a b = Inr r \<and> \<bar>r\<bar> \<le> c"
proof (cases "a = 0")
  case True
  from b le have "0 \<le> c * \<bar>b\<bar>"
    by simp
  with b have "0 \<le> c"
    by (simp add: zero_le_mult_iff)
  with True b show ?thesis
    by (simp add: int_quotient_def)
next
  case False
  let ?p = "\<bar>a\<bar>" and ?q = "\<bar>b\<bar>"
  let ?k = "exponent2 ?p ?q"
  let ?e = "?k - 52"
  let ?s = "nat (- ?e)"
  from False b have p: "0 < ?p" and q: "0 < ?q"
    by simp_all
  from p q le have c0: "0 \<le> c"
    by (smt (verit) mult_nonneg_nonpos2 mult.commute)
  have k52: "?k \<le> 52"
  proof (rule ccontr)
    assume "\<not> ?k \<le> 52"
    then have k: "53 \<le> ?k"
      by simp
    from exponent2_lower [OF p q] k have "?q * 2 ^ nat ?k \<le> ?p"
      by (simp add: shl_def)
    moreover from k have "(2::int) ^ 53 \<le> 2 ^ nat ?k"
      by (intro power_increasing) simp_all
    then have "?q * 2 ^ 53 \<le> ?q * 2 ^ nat ?k"
      using q by (intro mult_left_mono) simp_all
    moreover from c q have "c * ?q \<le> 2 ^ 52 * ?q"
      by (intro mult_right_mono) simp_all
    ultimately have "?q * 2 ^ 53 \<le> 2 ^ 52 * ?q"
      using le by linarith
    with q show False
      by simp
  qed
  then have e: "?e \<le> 0"
    by simp
  let ?P = "shl ?p (- ?e)"
  let ?m = "rne_div ?P ?q"
  have P: "?P = ?p * 2 ^ ?s"
    by (simp add: shl_def)
  have P0: "0 \<le> ?P"
    by (simp add: shl_def)
  have Pup: "?P \<le> 2 ^ 53 * ?q"
  proof (cases "0 \<le> ?k + 1")
    case True
    from exponent2_upper [OF p q] True have "?p < ?q * 2 ^ nat (?k + 1)"
      by (simp add: shl_def)
    then have "?p * 2 ^ ?s \<le> (?q * 2 ^ nat (?k + 1)) * 2 ^ ?s"
      by (intro mult_right_mono) simp_all
    also have "\<dots> = ?q * 2 ^ (nat (?k + 1) + ?s)"
      by (simp add: power_add)
    also from True k52 have "nat (?k + 1) + ?s = 53"
      by linarith
    finally show ?thesis
      by (simp add: shl_def mult.commute)
  next
    case False
    from exponent2_upper [OF p q] False have u: "?p * 2 ^ nat (- (?k + 1)) < ?q"
      by (simp add: shl_def)
    from False have "?s = nat (- (?k + 1)) + 53"
      by linarith
    then have "?p * 2 ^ ?s = (?p * 2 ^ nat (- (?k + 1))) * 2 ^ 53"
      by (simp add: power_add)
    also from u have "\<dots> \<le> ?q * 2 ^ 53"
      by (intro mult_right_mono) simp_all
    finally show ?thesis
      by (simp add: shl_def mult.commute)
  qed
  from rne_div_le [OF P0 q Pup] have m53: "?m \<le> 2 ^ 53" .
  from rne_div_nonneg [OF P0 q] have m0: "0 \<le> ?m" .
  from le have "?p * 2 ^ ?s \<le> (c * ?q) * 2 ^ ?s"
    by (intro mult_right_mono) simp_all
  also have "(c * ?q) * 2 ^ ?s = (c * 2 ^ ?s) * ?q"
    by (simp add: mult.assoc mult.left_commute mult.commute)
  finally have "?P \<le> (c * 2 ^ ?s) * ?q"
    unfolding P .
  from rne_div_le [OF P0 q this] have mc: "?m \<le> c * 2 ^ ?s" .
  then have "?m div 2 ^ ?s \<le> (c * 2 ^ ?s) div 2 ^ ?s"
    by (intro zdiv_mono1) simp_all
  then have t: "?m div 2 ^ ?s \<le> c"
    by simp
  from m0 have t0: "0 \<le> ?m div 2 ^ ?s"
    by (simp add: pos_imp_zdiv_nonneg_iff)
  have m: "shl ?m ?e = ?m"
    using e by (rule shl_nonpos)
  have qe: "shl ?q ?e = ?q"
    using e by (rule shl_nonpos)
  have "(2::int) ^ 53 < 2 ^ 1024"
    by (rule power_strict_increasing) simp_all
  with m53 have no: "\<not> (2::int) ^ 1024 \<le> ?m"
    by linarith
  have "int_quotient a b = Inr (sgn a * sgn b * (?m div 2 ^ ?s))"
    by (simp only: int_quotient_def Let_def qe m False b no if_False)
  moreover from False b t t0 have "\<bar>sgn a * sgn b * (?m div 2 ^ ?s)\<bar> \<le> c"
    by (simp add: abs_mult)
  ultimately show ?thesis
    by blast
qed

lemma int_quotient_no_zero_division: "b \<noteq> 0 \<Longrightarrow> int_quotient a b \<noteq> Inl ZeroDivisionError"
  by (simp add: int_quotient_def Let_def)

lemma int_quotient_errors:
  "b \<noteq> 0 \<Longrightarrow> int_quotient a b = Inl e \<Longrightarrow> e = OverflowError"
  by (auto simp: int_quotient_def Let_def split: if_splits)

subsection \<open>The progress bar\<close>

lemma repeat_str_Inr:
  "- (2 ^ 63) \<le> n \<Longrightarrow> n \<le> 2 ^ 63 - 1 \<Longrightarrow> repeat_str c n = Inr (replicate (nat n) c)"
  by (simp add: repeat_str_def)

lemma repeat_str_errors: "repeat_str c n = Inl e \<Longrightarrow> e = OverflowError"
  by (simp add: repeat_str_def split: if_splits)

lemma show_bar_Inr_bounds:
  "show_bar total' desc size' j = Inr t \<Longrightarrow> 0 \<le> j \<and> j \<le> total'"
  by (simp add: show_bar_def split: if_splits)

lemma show_bar_Inl:
  "\<not> (0 \<le> j \<and> j \<le> total') \<Longrightarrow> show_bar total' desc size' j = Inl AssertionError"
  by (simp add: show_bar_def)

lemma show_bar_errors:
  assumes "0 \<le> j \<and> j \<le> total'" and "show_bar total' desc size' j = Inl e"
  shows "e = OverflowError"
proof (cases "0 < total'")
  case True
  then have "total' \<noteq> 0"
    by simp
  from assms True show ?thesis
    by (auto simp: show_bar_def split: sum.splits
        dest: int_quotient_errors [OF \<open>total' \<noteq> 0\<close>] repeat_str_errors)
next
  case False
  with assms show ?thesis
    by (auto simp: show_bar_def split: sum.splits dest: repeat_str_errors)
qed

lemma show_bar_no_zero_division: "show_bar total' desc size' j \<noteq> Inl ZeroDivisionError"
proof (cases "0 \<le> j \<and> j \<le> total'")
  case True
  from show_bar_errors [OF True] show ?thesis
    by fastforce
next
  case False
  then show ?thesis
    by (simp add: show_bar_Inl)
qed

lemma show_bar_no_assertion:
  "0 \<le> j \<and> j \<le> total' \<Longrightarrow> show_bar total' desc size' j \<noteq> Inl AssertionError"
  using show_bar_errors by fastforce

lemma show_bar_Inr:
  assumes j: "0 \<le> j" "j \<le> total'" and sz: "\<bar>size'\<bar> \<le> 2 ^ 52"
  shows "\<exists>t. show_bar total' desc size' j = Inr t"
proof -
  have r: "\<exists>t. repeat_str c n = Inr t" if "\<bar>n\<bar> \<le> 2 ^ 53" for c n
  proof -
    from that have "- (2 ^ 63) \<le> n" "n \<le> 2 ^ 63 - 1"
      by simp_all
    then show ?thesis
      by (simp add: repeat_str_Inr)
  qed
  show ?thesis
  proof (cases "0 < total'")
    case True
    from j have "\<bar>size' * j\<bar> \<le> \<bar>size'\<bar> * \<bar>total'\<bar>"
      by (simp add: abs_mult mult_left_mono)
    with True sz obtain nbar
      where n: "int_quotient (size' * j) total' = Inr nbar" "\<bar>nbar\<bar> \<le> \<bar>size'\<bar>"
      using int_quotient_bounded [of total' "size' * j" "\<bar>size'\<bar>"] by auto
    from j have "\<bar>100 * j\<bar> \<le> 100 * \<bar>total'\<bar>"
      by simp
    with True obtain perc where p: "int_quotient (100 * j) total' = Inr perc"
      using int_quotient_bounded [of total' "100 * j" 100] by auto
    from n(2) sz obtain bar where b: "repeat_str CHR ''='' nbar = Inr bar"
      using r [of nbar] by auto
    from n(2) sz have "\<bar>size' - nbar\<bar> \<le> 2 ^ 53"
      by simp
    then obtain rest where s: "repeat_str CHR ''-'' (size' - nbar) = Inr rest"
      using r [of "size' - nbar"] by auto
    from j True n(1) p b s show ?thesis
      by (simp add: show_bar_def)
  next
    case False
    from sz obtain bar where b: "repeat_str CHR ''='' size' = Inr bar"
      using r [of size'] by auto
    obtain rest where s: "repeat_str CHR ''-'' (size' - size') = Inr rest"
      using r [of 0] by auto
    from j False b s show ?thesis
      by (simp add: show_bar_def)
  qed
qed

lemma yielded_append: "yielded (a @ b) = yielded a @ yielded b"
  by (induction a rule: yielded.induct) simp_all

lemma progress_loop_within:
  assumes "0 \<le> i" "i + int (length xs) \<le> total'" "\<bar>size'\<bar> \<le> 2 ^ 52"
  shows "yielded (progress_loop total' desc size' keep fail xs i) = xs
    \<and> raised_in (progress_loop total' desc size' keep fail xs i) = fail
    \<and> shown (progress_loop total' desc size' keep fail xs i)
        = map (\<lambda>k. i + 1 + int k) [0..<length xs]"
  using assms(1,2)
proof (induction xs arbitrary: i)
  case Nil
  then show ?case by (cases fail) simp_all
next
  case (Cons item it)
  from Cons.prems assms(3) obtain t where t: "show_bar total' desc size' (i + 1) = Inr t"
    using show_bar_Inr [of "i + 1" total' size' desc] by auto
  from Cons.prems have "0 \<le> i + 1" "i + 1 + int (length it) \<le> total'"
    by simp_all
  from Cons.IH [OF this] t show ?case
    by (simp add: map_upt_Suc add.assoc del: upt_Suc)
qed

lemma progress_loop_beyond:
  assumes "0 \<le> i" "i \<le> total'" "total' < i + int (length xs)" "\<bar>size'\<bar> \<le> 2 ^ 52"
  shows "raised_in (progress_loop total' desc size' keep fail xs i) = Some AssertionError"
  using assms(1,2,3)
proof (induction xs arbitrary: i)
  case Nil
  then show ?case by simp
next
  case (Cons item it)
  show ?case
  proof (cases "i + 1 \<le> total'")
    case True
    with Cons.prems assms(4) obtain t where t: "show_bar total' desc size' (i + 1) = Inr t"
      using show_bar_Inr [of "i + 1" total' size' desc] by auto
    from Cons.prems True have "0 \<le> i + 1" "i + 1 \<le> total'" "total' < i + 1 + int (length it)"
      by simp_all
    from Cons.IH [OF this] t show ?thesis by simp
  next
    case False
    then have "show_bar total' desc size' (i + 1) = Inl AssertionError"
      by (simp add: show_bar_Inl)
    then show ?thesis by simp
  qed
qed


lemma progress_loop_count:
  "progress_loop total' desc size' keep fail xs i = pre @ Show j w # post \<Longrightarrow>
   j = i + int (length (yielded pre))"
proof (induction xs arbitrary: i pre)
  case Nil
  then show ?case
    by (cases fail; cases pre) simp_all
next
  case (Cons item it)
  from Cons.prems obtain pre1 where p1: "pre = Yield item # pre1"
    by (cases pre) simp_all
  show ?case
  proof (cases "show_bar total' desc size' (i + 1)")
    case (Inl e)
    with Cons.prems p1 show ?thesis
      by (cases pre1) simp_all
  next
    case (Inr t)
    show ?thesis
    proof (cases pre1)
      case Nil
      with Cons.prems p1 Inr show ?thesis by simp
    next
      case (Cons q pre2)
      with Cons.prems p1 Inr
      have "progress_loop total' desc size' keep fail it (i + 1) = pre2 @ Show j w # post"
        and q: "q = Show (i + 1) t"
        by simp_all
      from Cons.IH [OF this(1)] p1 Cons q show ?thesis by simp
    qed
  qed
qed

lemma progress_loop_shown_bounds:
  "j \<in> set (shown (progress_loop total' desc size' keep fail xs i)) \<Longrightarrow> 0 \<le> j \<and> j \<le> total'"
proof (induction xs arbitrary: i)
  case Nil
  then show ?case by (cases fail) simp_all
next
  case (Cons item it)
  show ?case
  proof (cases "show_bar total' desc size' (i + 1)")
    case (Inl e)
    with Cons.prems show ?thesis by simp
  next
    case (Inr t)
    with Cons.prems Cons.IH [of "i + 1"] show_bar_Inr_bounds [OF Inr] show ?thesis
      by auto
  qed
qed

lemma progress_loop_raised:
  assumes "0 \<le> i" "i + int (length xs) \<le> total'"
  shows "raised_in (progress_loop total' desc size' keep fail xs i) = fail
    \<or> raised_in (progress_loop total' desc size' keep fail xs i) = Some OverflowError"
  using assms
proof (induction xs arbitrary: i)
  case Nil
  then show ?case by (cases fail) simp_all
next
  case (Cons item it)
  from Cons.prems have b: "0 \<le> i + 1 \<and> i + 1 \<le> total'"
    by simp
  show ?case
  proof (cases "show_bar total' desc size' (i + 1)")
    case (Inl e)
    with show_bar_errors [OF b Inl] show ?thesis by simp
  next
    case (Inr t)
    from Cons.prems have "0 \<le> i + 1" "i + 1 + int (length it) \<le> total'"
      by simp_all
    from Cons.IH [OF this] Inr show ?thesis by simp
  qed
qed

lemma progress_loop_yielded_prefix:
  "prefix (yielded (progress_loop total' desc size' keep fail xs i)) xs"
proof (induction xs arbitrary: i)
  case Nil
  then show ?case by (cases fail) simp_all
next
  case (Cons item it)
  then show ?case
    by (cases "show_bar total' desc size' (i + 1)") simp_all
qed

lemma trace_async_progressbar:
  "trace (async_progressbar it total' desc size' keep file) =
    (case show_bar total' desc size' 0 of
       Inl e \<Rightarrow> [Raise e]
     | Inr t \<Rightarrow> Show 0 t # progress_loop total' desc size' keep (failure it) (items it) 0)"
  by (simp add: async_progressbar_def Let_def)

lemma stream_async_progressbar:
  "stream (async_progressbar it total' desc size' keep file) =
    file @ written (trace (async_progressbar it total' desc size' keep file))"
  by (simp add: async_progressbar_def Let_def)

lemma async_progressbar_within:
  assumes "int (length xs) \<le> total'" "\<bar>size'\<bar> \<le> 2 ^ 52"
  shows "yielded (trace (async_progressbar (AIter xs fail) total' desc size' keep file)) = xs
    \<and> raised_in (trace (async_progressbar (AIter xs fail) total' desc size' keep file)) = fail
    \<and> shown (trace (async_progressbar (AIter xs fail) total' desc size' keep file))
        = map int [0..<Suc (length xs)]"
proof -
  from assms have "0 \<le> total'" by simp
  with assms(2) obtain t where t: "show_bar total' desc size' 0 = Inr t"
    using show_bar_Inr [of 0 total' size' desc] by auto
  from progress_loop_within [of 0 xs total' size' desc keep fail] assms t show ?thesis
    by (simp add: trace_async_progressbar map_upt_Suc del: upt_Suc)
qed

lemma async_progressbar_beyond:
  assumes "total' < int (length xs)" "\<bar>size'\<bar> \<le> 2 ^ 52"
  shows "raised_in (trace (async_progressbar (AIter xs fail) total' desc size' keep file))
    = Some AssertionError"
proof (cases "0 \<le> total'")
  case True
  with assms(2) obtain t where t: "show_bar total' desc size' 0 = Inr t"
    using show_bar_Inr [of 0 total' size' desc] by auto
  from progress_loop_beyond [of 0 total' xs size' desc keep fail] True assms t show ?thesis
    by (simp add: trace_async_progressbar)
next
  case False
  then have "show_bar total' desc size' 0 = Inl AssertionError"
    by (simp add: show_bar_Inl)
  then show ?thesis
    by (simp add: trace_async_progressbar)
qed


lemma async_progressbar_count:
  assumes "trace (async_progressbar it total' desc size' keep file) = pre @ Show j w # post"
  shows "j = int (length (yielded pre))"
proof (cases "show_bar total' desc size' 0")
  case (Inl e)
  with assms show ?thesis
    by (cases pre) (simp_all add: trace_async_progressbar)
next
  case (Inr t)
  show ?thesis
  proof (cases pre)
    case Nil
    with assms Inr show ?thesis
      by (simp add: trace_async_progressbar)
  next
    case (Cons q pre1)
    with assms Inr
    have "progress_loop total' desc size' keep (failure it) (items it) 0
        = pre1 @ Show j w # post" and "q = Show 0 t"
      by (simp_all add: trace_async_progressbar)
    from progress_loop_count [OF this(1)] Cons this(2) show ?thesis by simp
  qed
qed

lemma async_progressbar_shown_bounds:
  assumes "j \<in> set (shown (trace (async_progressbar it total' desc size' keep file)))"
  shows "0 \<le> j \<and> j \<le> total'"
proof (cases "show_bar total' desc size' 0")
  case (Inl e)
  with assms show ?thesis
    by (simp add: trace_async_progressbar)
next
  case (Inr t)
  with assms show_bar_Inr_bounds [OF Inr] progress_loop_shown_bounds show ?thesis
    by (fastforce simp: trace_async_progressbar)
qed

lemma async_progressbar_raised:
  assumes "int (length xs) \<le> total'"
  shows "raised_in (trace (async_progressbar (AIter xs fail) total' desc size' keep file)) = fail
    \<or> raised_in (trace (async_progressbar (AIter xs fail) total' desc size' keep file))
        = Some OverflowError"
proof (cases "show_bar total' desc size' 0")
  case (Inl e)
  from assms have "0 \<le> (0::int) \<and> 0 \<le> total'"
    by simp
  from show_bar_errors [OF this Inl] Inl show ?thesis
    by (simp add: trace_async_progressbar)
next
  case (Inr t)
  from progress_loop_raised [of 0 xs total' desc size' keep fail] assms Inr show ?thesis
    by (simp add: trace_async_progressbar)
qed

lemma async_progressbar_yielded_prefix:
  "prefix (yielded (trace (async_progressbar (AIter xs fail) total' desc size' keep file))) xs"
  by (cases "show_bar total' desc size' 0")
    (simp_all add: trace_async_progressbar progress_loop_yielded_prefix)

lemma str_int_0: "str_int 0 = ''0''"
  by code_simp

lemma str_int_100: "str_int 100 = ''100''"
  by code_simp

text \<open>
  C3. Let the wrapped sequence have as many items as \<open>total\<close> says, as in \<^verbatim>\<open>run\<close>, where
  \<open>total\<close> is the number of filtered references. Every count shown is the number of items
  handed out before it, whatever the items are, and it is \<open>n\<close> exactly when all items
  have been handed out. For a bar that can be drawn (a size of magnitude up to \<open>2 ^ 52\<close>)
  the counts shown are \<open>0, 1, \<dots>, n\<close>: the first is 0 and each next one is one more.
  \<^verbatim>\<open>run\<close> calls the generator with size 20, so there the counts are \<open>0, 1, \<dots>, n\<close> when
  the fetch sequence has one result for each filtered reference.
\<close>

theorem progress_count_tracks_consumed:
  "length xs = n \<Longrightarrow>
     (\<bar>size'\<bar> \<le> 2 ^ 52 \<longrightarrow>
        shown (trace (async_progressbar (AIter xs fail) (int n) desc size' keep file))
          = map int [0..<Suc n]
        \<and> shown (trace (async_progressbar (AIter xs fail) (int n) desc size' keep file)) ! 0 = 0
        \<and> (\<forall>k < n.
              shown (trace (async_progressbar (AIter xs fail) (int n) desc size' keep file)) ! Suc k
              = shown (trace (async_progressbar (AIter xs fail) (int n) desc size' keep file)) ! k
                + 1))
   \<and> (\<forall>pre j txt post.
         trace (async_progressbar (AIter xs fail) (int n) desc size' keep file)
           = pre @ Show j txt # post
         \<longrightarrow> j = int (length (yielded pre)) \<and> (j = int n \<longleftrightarrow> yielded pre = xs))
   \<and> fetch C path package_filter timeout =
       async_progressbar
         (search_versions_parallel C (refs_filtered C path package_filter) timeout)
         (int (length (refs_filtered C path package_filter))) [] 20 False []
   \<and> (length (items (search_versions_parallel C (refs_filtered C path package_filter) timeout))
        = length (refs_filtered C path package_filter)
       \<longrightarrow> shown (trace (fetch C path package_filter timeout))
            = map int [0..<Suc (length (refs_filtered C path package_filter))])"
proof (intro conjI allI impI)
  assume n: "length xs = n"
  let ?tr = "trace (async_progressbar (AIter xs fail) (int n) desc size' keep file)"
  {
    assume sz: "\<bar>size'\<bar> \<le> 2 ^ 52"
    from n sz async_progressbar_within [of xs "int n" size' fail desc keep "file"]
    have s: "shown ?tr = map int [0..<Suc n]"
      by simp
    show "shown ?tr = map int [0..<Suc n]"
      by (rule s)
    show "shown ?tr ! 0 = 0"
      unfolding s by (simp del: upt_Suc add: nth_map_upt)
    show "shown ?tr ! Suc k = shown ?tr ! k + 1" if "k < n" for k
      unfolding s using that by (simp del: upt_Suc add: nth_map_upt)
  }
  show "j = int (length (yielded pre))"
    if "?tr = pre @ Show j w # post" for pre j w post
    using that by (rule async_progressbar_count)
  show "j = int n \<longleftrightarrow> yielded pre = xs"
    if t: "?tr = pre @ Show j w # post" for pre j w post
  proof -
    from t have j: "j = int (length (yielded pre))"
      by (rule async_progressbar_count)
    from async_progressbar_yielded_prefix [of xs fail "int n" desc size' keep "file"] t
    obtain zs where "xs = yielded pre @ zs"
      by (auto simp: yielded_append prefix_def)
    with j n show ?thesis
      by (metis append_eq_append_conv append_Nil2 of_nat_eq_iff)
  qed
next
  show "fetch C path package_filter timeout =
       async_progressbar
         (search_versions_parallel C (refs_filtered C path package_filter) timeout)
         (int (length (refs_filtered C path package_filter))) [] 20 False []"
    by (simp add: fetch_def Let_def)
next
  let ?rs = "refs_filtered C path package_filter"
  let ?it = "search_versions_parallel C ?rs timeout"
  assume l: "length (items ?it) = length ?rs"
  obtain ys f where it: "?it = AIter ys f"
    by (cases ?it)
  with l have "int (length ys) \<le> int (length ?rs)" and "length ys = length ?rs"
    by simp_all
  with async_progressbar_within [of ys "int (length ?rs)" 20 f "[]" False "[]"] it
  show "shown (trace (fetch C path package_filter timeout)) = map int [0..<Suc (length ?rs)]"
    by (simp add: fetch_def Let_def)
qed

theorem progress_count_tracks_consumed_witness:
  "length ''abc'' = 3
   \<and> \<bar>20 :: int\<bar> \<le> 2 ^ 52
   \<and> shown (trace (async_progressbar (AIter ''abc'' None) 3 [] 20 False [])) = [0, 1, 2, 3]
   \<and> yielded (take 4 (trace (async_progressbar (AIter ''abc'' None) 3 [] 20 False []))) = ''ab''
   \<and> trace (async_progressbar (AIter ''abc'' None) 3 [] 20 False []) ! 4
       = Show 2 (''[=============-------] 2/3 66%'' @ [CR])
   \<and> shown (trace (fetch example_collab ''.'' [] 30)) = [0, 1, 2, 3, 4]"
proof -
  have h: "length ''abc'' = 3"
    by simp
  have h2: "\<bar>20 :: int\<bar> \<le> 2 ^ 52"
    by simp
  from progress_count_tracks_consumed [OF h, of 20 None "[]" False "[]"] h2
  have "shown (trace (async_progressbar (AIter ''abc'' None) (int 3) [] 20 False []))
      = map int [0..<Suc 3]"
    by blast
  also have "map int [0..<Suc 3] = [0, 1, 2, 3]"
    by code_simp
  finally have a: "shown (trace (async_progressbar (AIter ''abc'' None) 3 [] 20 False []))
      = [0, 1, 2, 3]"
    by simp
  have b: "yielded (take 4 (trace (async_progressbar (AIter ''abc'' None) 3 [] 20 False [])))
      = ''ab''"
    by code_simp
  have c: "trace (async_progressbar (AIter ''abc'' None) 3 [] 20 False []) ! 4
       = Show 2 (''[=============-------] 2/3 66%'' @ [CR])"
    by code_simp
  have d: "shown (trace (fetch example_collab ''.'' [] 30)) = [0, 1, 2, 3, 4]"
    by code_simp
  from h h2 a b c d show ?thesis by blast
qed




text \<open>
  C10. When the wrapped iterator yields at most \<open>total\<close> items (so \<open>total\<close> is not
  negative), the assertion of \<^verbatim>\<open>show\<close> never fails: the trace ends as the iterator ends
  or, for a bar too large to build, with an \<^verbatim>\<open>OverflowError\<close>, and for a size of
  magnitude up to \<open>2 ^ 52\<close> always as the iterator ends. Every count shown lies between 0
  and \<open>total\<close>. \<^verbatim>\<open>show\<close> never divides by zero, for any arguments; a count within the
  bounds never fails the assertion and, for such a size, always gives a text; and for
  \<open>total = 0\<close> the bar is full and the percentage 100.
\<close>

theorem progressbar_assertion_and_division_safe:
  "(int (length xs) \<le> total' \<longrightarrow>
      (raised_in (trace (async_progressbar (AIter xs fail) total' desc size' keep file)) = fail
       \<or> raised_in (trace (async_progressbar (AIter xs fail) total' desc size' keep file))
           = Some OverflowError)
      \<and> (\<bar>size'\<bar> \<le> 2 ^ 52 \<longrightarrow>
           raised_in (trace (async_progressbar (AIter xs fail) total' desc size' keep file))
           = fail))
   \<and> (\<forall>j \<in> set (shown (trace (async_progressbar (AIter xs fail) total' desc size' keep file))).
         0 \<le> j \<and> j \<le> total')
   \<and> show_bar total' desc size' j \<noteq> Inl ZeroDivisionError
   \<and> (0 \<le> j \<and> j \<le> total' \<longrightarrow> show_bar total' desc size' j \<noteq> Inl AssertionError)
   \<and> (0 \<le> j \<and> j \<le> total' \<and> \<bar>size'\<bar> \<le> 2 ^ 52 \<longrightarrow>
        (\<exists>txt. show_bar total' desc size' j = Inr txt))
   \<and> (- (2 ^ 63) \<le> size' \<and> size' \<le> 2 ^ 63 - 1 \<longrightarrow>
        show_bar 0 desc size' 0
        = Inr (desc @ ''['' @ replicate (nat size') CHR ''='' @ ''] 0/0 100%'' @ [CR]))"
proof (intro conjI impI ballI)
  assume a: "int (length xs) \<le> total'"
  from async_progressbar_raised [OF a, of fail desc size' keep "file"]
  show "raised_in (trace (async_progressbar (AIter xs fail) total' desc size' keep file)) = fail
       \<or> raised_in (trace (async_progressbar (AIter xs fail) total' desc size' keep file))
           = Some OverflowError" .
  show "raised_in (trace (async_progressbar (AIter xs fail) total' desc size' keep file)) = fail"
    if "\<bar>size'\<bar> \<le> 2 ^ 52"
    using async_progressbar_within [OF a that, of fail desc keep "file"] by simp
next
  fix k
  assume "k \<in> set (shown (trace (async_progressbar (AIter xs fail) total' desc size' keep file)))"
  then show "0 \<le> k" and "k \<le> total'"
    using async_progressbar_shown_bounds by blast+
next
  show "show_bar total' desc size' j \<noteq> Inl ZeroDivisionError"
    by (rule show_bar_no_zero_division)
  show "show_bar total' desc size' j \<noteq> Inl AssertionError" if "0 \<le> j \<and> j \<le> total'"
    using that by (rule show_bar_no_assertion)
  show "\<exists>txt. show_bar total' desc size' j = Inr txt"
    if "0 \<le> j \<and> j \<le> total' \<and> \<bar>size'\<bar> \<le> 2 ^ 52"
    using that show_bar_Inr [of j total' size' desc] by simp
  show "show_bar 0 desc size' 0
        = Inr (desc @ ''['' @ replicate (nat size') CHR ''='' @ ''] 0/0 100%'' @ [CR])"
    if "- (2 ^ 63) \<le> size' \<and> size' \<le> 2 ^ 63 - 1"
    using that by (simp add: show_bar_def repeat_str_Inr str_int_0 str_int_100)
qed

theorem progressbar_assertion_and_division_safe_witness:
  "int (length ([] :: nat list)) \<le> 0
   \<and> raised_in (trace (async_progressbar (AIter ([] :: nat list) None) 0 [] 20 False [])) = None
   \<and> trace (async_progressbar (AIter ([] :: nat list) None) 0 [] 20 False [])
       = [Show 0 (''[====================] 0/0 100%'' @ [CR]), Write [CR]]
   \<and> raised_in (trace (async_progressbar (AIter ''ab'' (Some KeyboardInterrupt)) 5 [] 20 False []))
       = Some KeyboardInterrupt
   \<and> raised_in (trace (async_progressbar (AIter ''ab'' None) 5 [] (2 ^ 63) False []))
       = Some OverflowError
   \<and> show_bar 5 ''x'' 20 2 = Inr (''x[========------------] 2/5 40%'' @ [CR])"
proof -
  have h: "int (length ([] :: nat list)) \<le> 0"
    by simp
  have s: "\<bar>20 :: int\<bar> \<le> 2 ^ 52"
    by simp
  from progressbar_assertion_and_division_safe [of "[] :: nat list" 0 None "[]" 20 False "[]"] h s
  have a: "raised_in (trace (async_progressbar (AIter ([] :: nat list) None) 0 [] 20 False []))
      = None"
    by blast
  have b: "trace (async_progressbar (AIter ([] :: nat list) None) 0 [] 20 False [])
       = [Show 0 (''[====================] 0/0 100%'' @ [CR]), Write [CR]]"
    by code_simp
  have h2: "int (length ''ab'') \<le> 5"
    by simp
  from progressbar_assertion_and_division_safe
    [of "''ab''" 5 "Some KeyboardInterrupt" "[]" 20 False "[]"] h2 s
  have c: "raised_in
      (trace (async_progressbar (AIter ''ab'' (Some KeyboardInterrupt)) 5 [] 20 False []))
       = Some KeyboardInterrupt"
    by blast
  have d: "raised_in (trace (async_progressbar (AIter ''ab'' None) 5 [] (2 ^ 63) False []))
       = Some OverflowError"
    by code_simp
  have e: "show_bar 5 ''x'' 20 2 = Inr (''x[========------------] 2/5 40%'' @ [CR])"
    by code_simp
  from h a b c d e show ?thesis by blast
qed

subsection \<open>Interruption\<close>

lemma run_fetch_raised:
  assumes "raised_in (trace (fetch C path package_filter timeout)) = Some e"
    and "interrupt \<noteq> BeforeHeader"
  shows "run C path package_filter target timeout interrupt =
    \<lparr>stdout = [header C path], stderr = stream (fetch C path package_filter timeout),
     raised = Some e\<rparr>"
  using assms by (simp add: run_def Let_def)

lemma run_fetch_done:
  assumes "raised_in (trace (fetch C path package_filter timeout)) = None"
  shows "stdout (run C path package_filter target timeout (InReport k))
      = header C path # take k (report C target (yielded (trace (fetch C path package_filter timeout))))
    \<and> stdout (run C path package_filter target timeout NoInterrupt)
      = header C path # report C target (yielded (trace (fetch C path package_filter timeout)))
    \<and> raised (run C path package_filter target timeout NoInterrupt) = None
    \<and> (raised (run C path package_filter target timeout (InReport k)) = None
        \<or> raised (run C path package_filter target timeout (InReport k))
            = Some KeyboardInterrupt)"
  using assms by (simp add: run_def Let_def)

lemma run_before_header:
  "run C path package_filter target timeout BeforeHeader =
    \<lparr>stdout = [], stderr = [], raised = Some KeyboardInterrupt\<rparr>"
  by (simp add: run_def)

text \<open>
  C7, as stated, fails: an interrupt that arrives while the report loop runs is caught by
  \<^verbatim>\<open>main\<close>, which ends normally, but the lines printed before it stay: here the header and
  the first row of the report.
\<close>

theorem interrupt_in_report_leaves_rows:
  "raised (main example_collab example_args (InReport 1)) = None
   \<and> length (stdout (main example_collab example_args (InReport 1))) = 2
   \<and> stdout (main example_collab example_args (InReport 1))
       = take 2 (stdout (main example_collab example_args NoInterrupt))
   \<and> length (stdout (main example_collab example_args NoInterrupt)) = 4"
  by code_simp

text \<open>
  C7, amended. \<^verbatim>\<open>main\<close> never ends with a \<^verbatim>\<open>KeyboardInterrupt\<close>: it catches the interrupt
  and ends normally. When the interrupt arrives before the header is printed, nothing is
  printed. When it reaches \<^verbatim>\<open>run\<close> while the results are being fetched, the only line
  printed is the header: there is no report. This is the case when the fetch sequence
  raises the interrupt after at most as many results as there are filtered references.
  When the interrupt arrives in the report loop, after \<open>k\<close> lines of the report, these
  \<open>k\<close> lines stay printed. In every case what is printed is a beginning of what an
  undisturbed run prints.
\<close>

theorem main_swallows_keyboard_interrupt:
  "raised (main C a interrupt) \<noteq> Some KeyboardInterrupt
   \<and> raised (main C a BeforeHeader) = None \<and> stdout (main C a BeforeHeader) = []
   \<and> (raised_in (trace (fetch C (args_cwd a) (args_filter a) (args_timeout a)))
        = Some KeyboardInterrupt \<and> interrupt \<noteq> BeforeHeader
        \<longrightarrow> raised (main C a interrupt) = None
            \<and> stdout (main C a interrupt) = [header C (args_cwd a)])
   \<and> (failure (search_versions_parallel C
          (refs_filtered C (args_cwd a) (args_filter a)) (args_timeout a)) = Some KeyboardInterrupt
        \<and> length (items (search_versions_parallel C
             (refs_filtered C (args_cwd a) (args_filter a)) (args_timeout a)))
           \<le> length (refs_filtered C (args_cwd a) (args_filter a))
        \<and> interrupt \<noteq> BeforeHeader
        \<longrightarrow> raised (main C a interrupt) = None
            \<and> stdout (main C a interrupt) = [header C (args_cwd a)])
   \<and> (raised_in (trace (fetch C (args_cwd a) (args_filter a) (args_timeout a))) = None
        \<longrightarrow> raised (main C a (InReport k)) = None
            \<and> stdout (main C a (InReport k))
                = header C (args_cwd a)
                  # take k (report C
                      (case target_choices (args_target a) of Some t \<Rightarrow> t | None \<Rightarrow> MAJOR)
                      (yielded (trace (fetch C (args_cwd a) (args_filter a) (args_timeout a))))))
   \<and> stdout (main C a (InReport k)) = take (Suc k) (stdout (main C a NoInterrupt))
   \<and> (\<exists>n. stdout (main C a interrupt) = take n (stdout (main C a NoInterrupt)))"
proof -
  let ?rs = "refs_filtered C (args_cwd a) (args_filter a)"
  let ?it = "search_versions_parallel C ?rs (args_timeout a)"
  let ?tr = "trace (fetch C (args_cwd a) (args_filter a) (args_timeout a))"
  let ?t = "case target_choices (args_target a) of Some t \<Rightarrow> t | None \<Rightarrow> MAJOR"
  have 1: "raised (main C a interrupt) \<noteq> Some KeyboardInterrupt"
    by (simp add: main_def Let_def split: option.splits error.splits)
  have 0: "raised (main C a BeforeHeader) = None \<and> stdout (main C a BeforeHeader) = []"
    by (simp add: main_def Let_def run_before_header)
  have 2: "raised (main C a interrupt) = None
      \<and> stdout (main C a interrupt) = [header C (args_cwd a)]"
    if "raised_in ?tr = Some KeyboardInterrupt" "interrupt \<noteq> BeforeHeader"
    using run_fetch_raised [OF that] by (simp add: main_def Let_def)
  have 3: "raised_in ?tr = Some KeyboardInterrupt"
    if "failure ?it = Some KeyboardInterrupt \<and> length (items ?it) \<le> length ?rs"
  proof -
    obtain xs fail where it: "?it = AIter xs fail"
      by (cases ?it)
    with that have "int (length xs) \<le> int (length ?rs)" and "fail = Some KeyboardInterrupt"
      by simp_all
    with async_progressbar_within [of xs "int (length ?rs)" 20 fail "[]" False "[]"] it
    show ?thesis
      by (simp add: fetch_def Let_def)
  qed
  have 4: "raised (main C a (InReport k)) = None
      \<and> stdout (main C a (InReport k))
          = header C (args_cwd a) # take k (report C ?t (yielded ?tr))"
    if "raised_in ?tr = None"
    using run_fetch_done [OF that, of ?t k]
    by (auto simp: main_def Let_def split: option.splits error.splits)
  have 5: "stdout (main C a (InReport k)) = take (Suc k) (stdout (main C a NoInterrupt))"
  proof (cases "raised_in ?tr")
    case None
    from run_fetch_done [OF None, of ?t k] show ?thesis
      by (auto simp: main_def Let_def split: option.splits error.splits)
  next
    case (Some e)
    from run_fetch_raised [OF Some, of NoInterrupt ?t]
      run_fetch_raised [OF Some, of "InReport k" ?t]
    show ?thesis
      by (auto simp: main_def Let_def split: option.splits error.splits)
  qed
  have 6: "\<exists>n. stdout (main C a interrupt) = take n (stdout (main C a NoInterrupt))"
  proof (cases interrupt)
    case NoInterrupt
    then have "stdout (main C a interrupt)
        = take (length (stdout (main C a NoInterrupt))) (stdout (main C a NoInterrupt))"
      by simp
    then show ?thesis ..
  next
    case BeforeHeader
    with 0 have "stdout (main C a interrupt) = take 0 (stdout (main C a NoInterrupt))"
      by simp
    then show ?thesis ..
  next
    case (InReport j)
    have "stdout (main C a (InReport j)) = take (Suc j) (stdout (main C a NoInterrupt))"
    proof (cases "raised_in ?tr")
      case None
      from run_fetch_done [OF None, of ?t j] show ?thesis
        by (auto simp: main_def Let_def split: option.splits error.splits)
    next
      case (Some e)
      from run_fetch_raised [OF Some, of NoInterrupt ?t]
        run_fetch_raised [OF Some, of "InReport j" ?t]
      show ?thesis
        by (auto simp: main_def Let_def split: option.splits error.splits)
    qed
    with InReport show ?thesis
      by blast
  qed
  from 0 1 2 3 4 5 6 show ?thesis by blast
qed

theorem main_swallows_keyboard_interrupt_witness:
  "raised_in (trace (fetch interrupted_collab (args_cwd example_args) (args_filter example_args)
      (args_timeout example_args))) = Some KeyboardInterrupt
   \<and> raised (main interrupted_collab example_args NoInterrupt) = None
   \<and> stdout (main interrupted_collab example_args NoInterrupt)
       = [''Checking '' @ BOLD @ ''./conanfile.txt'' @ RESET]
   \<and> raised_in (trace (fetch example_collab (args_cwd example_args) (args_filter example_args)
      (args_timeout example_args))) = None
   \<and> raised (main example_collab example_args (InReport 1)) = None
   \<and> length (stdout (main example_collab example_args (InReport 1))) = 2"
proof -
  have h: "raised_in (trace (fetch interrupted_collab (args_cwd example_args)
      (args_filter example_args) (args_timeout example_args))) = Some KeyboardInterrupt"
    by code_simp
  have n: "NoInterrupt \<noteq> BeforeHeader"
    by simp
  from main_swallows_keyboard_interrupt [of interrupted_collab example_args NoInterrupt] h n
  have a: "raised (main interrupted_collab example_args NoInterrupt) = None"
    and "stdout (main interrupted_collab example_args NoInterrupt)
       = [header interrupted_collab (args_cwd example_args)]"
    by blast+
  moreover have "header interrupted_collab (args_cwd example_args)
      = ''Checking '' @ BOLD @ ''./conanfile.txt'' @ RESET"
    by code_simp
  ultimately have b: "stdout (main interrupted_collab example_args NoInterrupt)
       = [''Checking '' @ BOLD @ ''./conanfile.txt'' @ RESET]"
    by simp
  have h2: "raised_in (trace (fetch example_collab (args_cwd example_args)
      (args_filter example_args) (args_timeout example_args))) = None"
    by code_simp
  note t = main_swallows_keyboard_interrupt [of example_collab example_args _ 1]
  from t h2 have c: "raised (main example_collab example_args (InReport 1)) = None"
    by blast
  from t have "stdout (main example_collab example_args (InReport 1))
      = take (Suc 1) (stdout (main example_collab example_args NoInterrupt))"
    by blast
  moreover
  have "length (take (Suc 1) (stdout (main example_collab example_args NoInterrupt))) = 2"
    by code_simp
  ultimately have d: "length (stdout (main example_collab example_args (InReport 1))) = 2"
    by simp
  from h a b h2 c d show ?thesis by blast
qed

subsection \<open>Independence of the completion order\<close>

lemma sort_key_permutation:
  fixes f :: "'a \<Rightarrow> 'k::linorder"
  assumes d: "distinct (map f xs)" and m: "mset ys = mset xs"
  shows "sort_key f ys = sort_key f xs"
proof -
  from m have s: "set ys = set xs"
    by (rule mset_eq_setD)
  from m have "mset (map f ys) = mset (map f xs)"
    by simp
  with d have d': "distinct (map f ys)"
    by (metis mset_eq_imp_distinct_iff)
  have "map f (sort_key f ys) = map f (sort_key f xs)"
  proof (rule sorted_distinct_set_unique)
    show "sorted (map f (sort_key f ys))" "sorted (map f (sort_key f xs))"
      by simp_all
    show "distinct (map f (sort_key f ys))"
      using d' by (simp add: distinct_map)
    show "distinct (map f (sort_key f xs))"
      using d by (simp add: distinct_map)
    show "set (map f (sort_key f ys)) = set (map f (sort_key f xs))"
      using s by simp
  qed
  moreover from d have "inj_on f (set (sort_key f ys) \<union> set (sort_key f xs))"
    using s by (simp add: distinct_map)
  ultimately show ?thesis
    by (simp add: inj_on_map_eq_map)
qed

lemma fold_max_permutation:
  fixes a :: nat
  assumes "mset ys = mset xs"
  shows "fold max (map g ys) a = fold max (map g xs) a"
proof -
  from assms have "set ys = set xs"
    by (rule mset_eq_setD)
  then have "Max (set (a # map g ys)) = Max (set (a # map g xs))"
    by simp
  then show ?thesis
    by (simp only: Max.set_eq_fold)
qed

lemma report_permutation:
  assumes "distinct (map (\<lambda>r. package (ref r)) rs)" and "mset rs' = mset rs"
  shows "report C target rs' = report C target rs"
proof -
  from assms have "sort_key (\<lambda>r. package (ref r)) rs' = sort_key (\<lambda>r. package (ref r)) rs"
    by (rule sort_key_permutation)
  moreover have "cols_package rs' = cols_package rs"
    by (simp only: cols_package_def fold_max_permutation [OF assms(2)])
  moreover have "cols_version C rs' = cols_version C rs"
    by (simp only: cols_version_def fold_max_permutation [OF assms(2)])
  ultimately show ?thesis
    by (simp add: report_def sorted_rows_def)
qed

lemma str_like_search [simp]: "str_like (C\<lparr>search_versions_parallel := s\<rparr>) = str_like C"
proof
  fix v show "str_like (C\<lparr>search_versions_parallel := s\<rparr>) v = str_like C v"
    by (cases v) simp_all
qed

lemma str_like_or_range_search [simp]:
  "str_like_or_range (C\<lparr>search_versions_parallel := s\<rparr>) = str_like_or_range C"
proof
  fix v show "str_like_or_range (C\<lparr>search_versions_parallel := s\<rparr>) v = str_like_or_range C v"
    by (cases v) simp_all
qed

lemma resolve_version_search [simp]:
  "resolve_version (C\<lparr>search_versions_parallel := s\<rparr>) v vs = resolve_version C v vs"
  by (cases v) simp_all

lemma str_optional_search [simp]:
  "str_optional (C\<lparr>search_versions_parallel := s\<rparr>) v = str_optional C v"
  by (cases v) simp_all

lemma update_version_of_search [simp]:
  "update_version_of (C\<lparr>search_versions_parallel := s\<rparr>) target cur vs
    = update_version_of C target cur vs"
  by (cases cur) (simp_all add: update_version_of_def)

lemma text_update_column_search [simp]:
  "text_update_column (C\<lparr>search_versions_parallel := s\<rparr>) cur upd vs
    = text_update_column C cur upd vs"
  by (cases upd) (simp_all add: text_update_column_def)

lemma resolved_search [simp]: "resolved (C\<lparr>search_versions_parallel := s\<rparr>) r = resolved C r"
  by (simp add: resolved_def)

lemma update_search [simp]:
  "update (C\<lparr>search_versions_parallel := s\<rparr>) target r = update C target r"
  by (simp add: update_def)

lemma row_of_search [simp]: "row_of (C\<lparr>search_versions_parallel := s\<rparr>) target = row_of C target"
  by (rule ext) (simp add: row_of_def)

lemma cols_version_search [simp]:
  "cols_version (C\<lparr>search_versions_parallel := s\<rparr>) rs = cols_version C rs"
  by (simp add: cols_version_def)

lemma report_search [simp]:
  "report (C\<lparr>search_versions_parallel := s\<rparr>) target rs = report C target rs"
  by (simp add: report_def sorted_rows_def report_rows_filter)

lemma run_stdout_search:
  "stdout (run (C\<lparr>search_versions_parallel := \<lambda>refs t. AIter rs None\<rparr>) path pf target timeout
             interrupt)
    = (if interrupt = BeforeHeader then []
       else if int (length rs) \<le> int (length (refs_filtered C path pf))
       then header C path
            # (case interrupt of InReport k \<Rightarrow> take k (report C target rs)
               | _ \<Rightarrow> report C target rs)
       else [header C path])"
proof -
  let ?C = "C\<lparr>search_versions_parallel := \<lambda>refs t. AIter rs None\<rparr>"
  let ?n = "int (length (refs_filtered C path pf))"
  have f: "fetch ?C path pf timeout = async_progressbar (AIter rs None) ?n [] 20 False []"
    by (simp add: fetch_def refs_filtered_def Let_def)
  have h: "header ?C path = header C path"
    by (simp add: header_def)
  have s: "\<bar>20 :: int\<bar> \<le> 2 ^ 52"
    by simp
  show ?thesis
  proof (cases "int (length rs) \<le> ?n")
    case True
    from async_progressbar_within [OF True s, of None "[]" False "[]"] True show ?thesis
      by (cases interrupt) (simp_all add: run_def Let_def f h)
  next
    case False
    then have "?n < int (length rs)"
      by simp
    from async_progressbar_beyond [OF this s, of None "[]" False "[]"] False show ?thesis
      by (cases interrupt) (simp_all add: run_def Let_def f h)
  qed
qed

text \<open>
  C5. Let the package names of the results be pairwise different. Then the report printed
  for any rearrangement of the results is the same, line for line; and two runs of \<^verbatim>\<open>run\<close>
  whose lookups complete in different orders, with the same results, print the same.
\<close>

theorem report_independent_of_completion_order:
  "distinct (map (\<lambda>r. package (ref r)) rs) \<Longrightarrow> mset rs' = mset rs \<Longrightarrow>
     report C target rs' = report C target rs
   \<and> stdout (run (C\<lparr>search_versions_parallel := \<lambda>refs t. AIter rs' None\<rparr>)
               path package_filter target timeout interrupt)
     = stdout (run (C\<lparr>search_versions_parallel := \<lambda>refs t. AIter rs None\<rparr>)
                 path package_filter target timeout interrupt)"
proof -
  assume d: "distinct (map (\<lambda>r. package (ref r)) rs)" and m: "mset rs' = mset rs"
  from d m have r: "report C target rs' = report C target rs"
    by (rule report_permutation)
  from m have "length rs' = length rs"
    by (rule mset_eq_length)
  with r show ?thesis
    by (simp add: run_stdout_search cong: sigint.case_cong)
qed

theorem report_independent_of_completion_order_witness:
  "distinct (map (\<lambda>r. package (ref r)) example_results)
   \<and> mset (rev example_results) = mset example_results
   \<and> rev example_results \<noteq> example_results
   \<and> report example_collab MAJOR (rev example_results)
       = report example_collab MAJOR example_results
   \<and> length (report example_collab MAJOR example_results) = 3"
proof -
  have h1: "distinct (map (\<lambda>r. package (ref r)) example_results)"
    by code_simp
  have h2: "mset (rev example_results) = mset example_results"
    by simp
  have n: "rev example_results \<noteq> example_results"
    by code_simp
  from report_independent_of_completion_order [OF h1 h2, of example_collab MAJOR]
  have a: "report example_collab MAJOR (rev example_results)
       = report example_collab MAJOR example_results"
    by (rule conjunct1)
  have b: "length (report example_collab MAJOR example_results) = 3"
    by code_simp
  from h1 h2 n a b show ?thesis by blast
qed

end
